theory Spec2Isabelle
  imports Main "HOL-Library.Product_Lexorder" "HOL-Library.FSet"
begin

section \<open>Python lists and results\<close>

text \<open>
  The program is \<^verbatim>\<open>benchmark.py\<close>. Python integers are unbounded, so vertices, weights
  and ranks are \<^typ>\<open>int\<close>. A list subscript with an index outside the list raises
  \<^verbatim>\<open>IndexError\<close>; a negative index counts from the end of the list.
\<close>

datatype error = IndexError

text \<open>The position a subscript \<open>i\<close> denotes in a list of \<open>len\<close> items, if any.\<close>

definition py_index :: "nat \<Rightarrow> int \<Rightarrow> nat option" where
  "py_index len i =
     (if 0 \<le> i \<and> i < int len then Some (nat i)
      else if i < 0 \<and> - int len \<le> i then Some (nat (int len + i))
      else None)"

definition list_get :: "'a list \<Rightarrow> int \<Rightarrow> error + 'a" where
  "list_get xs i = (case py_index (length xs) i of None \<Rightarrow> Inl IndexError | Some k \<Rightarrow> Inr (xs ! k))"

definition list_set :: "'a list \<Rightarrow> int \<Rightarrow> 'a \<Rightarrow> error + 'a list" where
  "list_set xs i v =
     (case py_index (length xs) i of None \<Rightarrow> Inl IndexError | Some k \<Rightarrow> Inr (xs[k := v]))"

text \<open>
  A call either does not return (\<open>None\<close>: the recursion of \<^verbatim>\<open>find\<close> does not end),
  raises (\<open>Some (Inl e)\<close>) or returns a value (\<open>Some (Inr v)\<close>).
\<close>

type_synonym 'a result = "(error + 'a) option"

definition ok :: "'a \<Rightarrow> 'a result" where
  "ok v = Some (Inr v)"

definition raise :: "error \<Rightarrow> 'a result" where
  "raise e = Some (Inl e)"

definition lift :: "error + 'a \<Rightarrow> 'a result" where
  "lift r = Some r"

definition bindr :: "'a result \<Rightarrow> ('a \<Rightarrow> 'b result) \<Rightarrow> 'b result" where
  "bindr m f = (case m of None \<Rightarrow> None | Some (Inl e) \<Rightarrow> Some (Inl e) | Some (Inr v) \<Rightarrow> f v)"

lemma bindr_mono [partial_function_mono]:
  assumes mf: "mono_option B" and mg: "\<And>y. mono_option (\<lambda>f. C y f)"
  shows "mono_option (\<lambda>f. bindr (B f) (\<lambda>y. C y f))"
proof -
  have eq: "\<And>f. bindr (B f) (\<lambda>y. C y f) =
      Option.bind (B f) (\<lambda>r. case r of Inl e \<Rightarrow> Some (Inl e) | Inr v \<Rightarrow> C v f)"
    by (auto simp: bindr_def split: option.splits sum.splits)
  have "\<And>r. mono_option (\<lambda>f. case r of Inl e \<Rightarrow> Some (Inl e) | Inr v \<Rightarrow> C v f)"
    by (case_tac r) (simp_all add: mg option.const_mono)
  then show ?thesis
    unfolding eq
    by (intro partial_function_mono mf)
qed

section \<open>Union-Find\<close>

record union_find =
  parent :: "int list"
  rank :: "int list"

text \<open>\<^verbatim>\<open>UnionFind(n)\<close>: \<^verbatim>\<open>list(range(n + 1))\<close> and \<^verbatim>\<open>[0] * (n + 1)\<close>; both are empty when
  \<open>n + 1 \<le> 0\<close>.\<close>

definition UnionFind :: "int \<Rightarrow> union_find" where
  "UnionFind n = \<lparr> parent = [0..n], rank = replicate (nat (n + 1)) 0 \<rparr>"

text \<open>
  \<^verbatim>\<open>find\<close> recurses along the parent pointers and, on the way back, stores the root in
  every node it went through. Nothing in the code bounds the recursion, so the model is a
  partial function: \<open>None\<close> is a call that does not return.
\<close>

partial_function (option) find :: "union_find \<Rightarrow> int \<Rightarrow> (union_find \<times> int) result" where
  "find uf i =
     bindr (lift (list_get (parent uf) i)) (\<lambda>p.
     bindr (if p \<noteq> i then
              bindr (lift (list_get (parent uf) i)) (\<lambda>q.
              bindr (find uf q) (\<lambda>(uf1, r).
              bindr (lift (list_set (parent uf1) i r)) (\<lambda>ps.
              ok (uf1\<lparr>parent := ps\<rparr>))))
            else ok uf) (\<lambda>uf2.
     bindr (lift (list_get (parent uf2) i)) (\<lambda>res.
     ok (uf2, res))))"

declare find.simps [code]

definition union :: "union_find \<Rightarrow> int \<Rightarrow> int \<Rightarrow> (union_find \<times> bool) result" where
  "union uf i j =
     bindr (find uf i) (\<lambda>(uf1, root_i).
     bindr (find uf1 j) (\<lambda>(uf2, root_j).
       if root_i \<noteq> root_j then
         bindr (lift (list_get (rank uf2) root_i)) (\<lambda>rank_i.
         bindr (lift (list_get (rank uf2) root_j)) (\<lambda>rank_j.
         let (root_i, root_j) = (if rank_i < rank_j then (root_j, root_i) else (root_i, root_j)) in
         bindr (lift (list_set (parent uf2) root_j root_i)) (\<lambda>ps.
         let uf3 = uf2\<lparr>parent := ps\<rparr> in
         bindr (lift (list_get (rank uf3) root_i)) (\<lambda>rank_i'.
         bindr (lift (list_get (rank uf3) root_j)) (\<lambda>rank_j'.
         if rank_i' = rank_j' then
           bindr (lift (list_set (rank uf3) root_i (rank_i' + 1))) (\<lambda>rs.
           ok (uf3\<lparr>rank := rs\<rparr>, True))
         else ok (uf3, True))))))
       else ok (uf2, False)))"

section \<open>Kruskal\<close>

text \<open>An edge is the tuple \<^verbatim>\<open>(u, v, w)\<close>. The record holds the variables of one call of
  \<^verbatim>\<open>run_kruskal\<close>: the list \<^verbatim>\<open>edges\<close> it was given, and its locals \<^verbatim>\<open>uf\<close>, \<^verbatim>\<open>mst_weight\<close>
  and \<^verbatim>\<open>edges_count\<close>.\<close>

type_synonym edge = "int \<times> int \<times> int"

record kruskal_frame =
  k_edges :: "edge list"
  k_uf :: union_find
  k_mst_weight :: int
  k_edges_count :: int

text \<open>The body of the \<^verbatim>\<open>for\<close> loop, for one edge.\<close>

definition kruskal_step :: "kruskal_frame \<Rightarrow> edge \<Rightarrow> kruskal_frame result" where
  "kruskal_step fr e =
     (case e of (u, v, w) \<Rightarrow>
        bindr (union (k_uf fr) u v) (\<lambda>(uf', merged).
          if merged
          then ok (fr\<lparr>k_uf := uf', k_mst_weight := k_mst_weight fr + w,
                   k_edges_count := k_edges_count fr + 1\<rparr>)
          else ok (fr\<lparr>k_uf := uf'\<rparr>)))"

fun kruskal_loop :: "edge list \<Rightarrow> kruskal_frame \<Rightarrow> kruskal_frame result" where
  "kruskal_loop [] fr = ok fr"
| "kruskal_loop (e # es) fr = bindr (kruskal_step fr e) (kruskal_loop es)"

text \<open>\<^verbatim>\<open>sorted(edges, key=lambda x: x[2])\<close> builds a new list and is stable, as
  \<^const>\<open>sort_key\<close> is.\<close>

definition run_kruskal_frame :: "int \<Rightarrow> edge list \<Rightarrow> kruskal_frame result" where
  "run_kruskal_frame num_nodes es =
     (let fr = \<lparr> k_edges = es, k_uf = UnionFind num_nodes, k_mst_weight = 0, k_edges_count = 0 \<rparr>;
          sorted_edges = sort_key (\<lambda>(u, v, w). w) (k_edges fr)
      in kruskal_loop sorted_edges fr)"

text \<open>The weight \<^verbatim>\<open>run_kruskal\<close> returns; the elapsed time it returns with it is not
  modelled.\<close>

definition run_kruskal :: "int \<Rightarrow> edge list \<Rightarrow> int result" where
  "run_kruskal num_nodes es = bindr (run_kruskal_frame num_nodes es) (\<lambda>fr. ok (k_mst_weight fr))"

section \<open>Prim\<close>

text \<open>
  The adjacency structure is the \<^verbatim>\<open>defaultdict(list)\<close> that \<^verbatim>\<open>read_dimacs_graph\<close> builds:
  a map from a vertex to its list of \<^verbatim>\<open>(weight, neighbor)\<close> pairs. Subscripting a
  \<^verbatim>\<open>defaultdict\<close> with a missing key stores the default, an empty list, under that key
  and returns it.
\<close>

type_synonym adjacency = "int \<rightharpoonup> (int \<times> int) list"

definition dd_get :: "adjacency \<Rightarrow> int \<Rightarrow> adjacency \<times> (int \<times> int) list" where
  "dd_get adj u = (case adj u of None \<Rightarrow> (adj(u \<mapsto> []), []) | Some l \<Rightarrow> (adj, l))"

text \<open>\<^verbatim>\<open>adj[u].append(x)\<close>, as the loader does for both directions of an edge.\<close>

definition dd_append :: "adjacency \<Rightarrow> int \<Rightarrow> int \<times> int \<Rightarrow> adjacency" where
  "dd_append adj u x = (case dd_get adj u of (adj', l) \<Rightarrow> adj'(u \<mapsto> l @ [x]))"

definition build_adj :: "edge list \<Rightarrow> adjacency" where
  "build_adj es = fold (\<lambda>(u, v, w) adj. dd_append (dd_append adj u (w, v)) v (w, u)) es Map.empty"

text \<open>
  The priority queue is a \<^verbatim>\<open>heapq\<close> of \<^verbatim>\<open>(weight, node)\<close> tuples, compared
  lexicographically. The model keeps the queue's items in ascending order:
  \<^verbatim>\<open>heappush\<close> inserts an item at its place and \<^verbatim>\<open>heappop\<close> removes the head, the
  smallest item, which is what the library's heap returns.
\<close>

definition heappush :: "(int \<times> int) list \<Rightarrow> int \<times> int \<Rightarrow> (int \<times> int) list" where
  "heappush pq x = insort x pq"

definition heappop :: "(int \<times> int) list \<Rightarrow> (int \<times> int) \<times> (int \<times> int) list" where
  "heappop pq = (hd pq, tl pq)"

text \<open>The variables of one call of \<^verbatim>\<open>run_prim\<close>: \<^verbatim>\<open>adj\<close>, \<^verbatim>\<open>pq\<close>, \<^verbatim>\<open>visited\<close> and
  \<^verbatim>\<open>mst_weight\<close>.\<close>

record prim_frame =
  p_adj :: adjacency
  p_pq :: "(int \<times> int) list"
  p_visited :: "int fset"
  p_mst_weight :: int

text \<open>The inner \<^verbatim>\<open>for\<close> loop: the unvisited neighbours of \<open>u\<close> are pushed.\<close>

definition push_neighbors :: "int fset \<Rightarrow> (int \<times> int) list \<Rightarrow> (int \<times> int) list \<Rightarrow> (int \<times> int) list" where
  "push_neighbors vis nbrs q =
     fold (\<lambda>(weight, neighbor) q. if neighbor |\<notin>| vis then heappush q (weight, neighbor) else q) nbrs q"

function prim_loop :: "int \<Rightarrow> prim_frame \<Rightarrow> prim_frame" where
  "prim_loop num_nodes fr =
     (if p_pq fr \<noteq> [] \<and> int (fcard (p_visited fr)) < num_nodes then
        (case heappop (p_pq fr) of ((w, u), pq1) \<Rightarrow>
           if u |\<in>| p_visited fr then prim_loop num_nodes (fr\<lparr>p_pq := pq1\<rparr>)
           else
             let visited1 = finsert u (p_visited fr);
                 weight1 = p_mst_weight fr + w;
                 (adj1, nbrs) = dd_get (p_adj fr) u;
                 pq2 = push_neighbors visited1 nbrs pq1
             in prim_loop num_nodes \<lparr> p_adj = adj1, p_pq = pq2, p_visited = visited1, p_mst_weight = weight1 \<rparr>)
      else fr)"
  by pat_completeness auto
termination
  by (relation "measures [\<lambda>(n, fr). nat (n - int (fcard (p_visited fr))), \<lambda>(n, fr). length (p_pq fr)]")
     (auto simp: heappop_def fcard_finsert_if)

declare prim_loop.simps [simp del]

definition run_prim_frame :: "int \<Rightarrow> adjacency \<Rightarrow> prim_frame" where
  "run_prim_frame num_nodes a =
     prim_loop num_nodes \<lparr> p_adj = a, p_pq = [(0, 1)], p_visited = {||}, p_mst_weight = 0 \<rparr>"

text \<open>The weight \<^verbatim>\<open>run_prim\<close> returns. No statement of \<^verbatim>\<open>run_prim\<close> can raise: the
  queue is popped only when it is not empty, and the subscript of a \<^verbatim>\<open>defaultdict\<close>
  always succeeds.\<close>

definition run_prim :: "int \<Rightarrow> adjacency \<Rightarrow> int" where
  "run_prim num_nodes a = p_mst_weight (run_prim_frame num_nodes a)"

section \<open>Evaluating results and list accesses\<close>

lemma bindr_ok [simp]: "bindr (ok v) f = f v"
  by (simp add: bindr_def ok_def)

lemma bindr_lift_Inr [simp]: "bindr (lift (Inr v)) f = f v"
  by (simp add: bindr_def lift_def)

lemma bindr_lift_Inl [simp]: "bindr (lift (Inl e)) f = Some (Inl e)"
  by (simp add: bindr_def lift_def)

lemma ok_inject [simp]: "ok a = ok b \<longleftrightarrow> a = b"
  by (simp add: ok_def)

lemma list_get_in: "0 \<le> i \<Longrightarrow> i < int (length xs) \<Longrightarrow> list_get xs i = Inr (xs ! nat i)"
  by (simp add: list_get_def py_index_def)

lemma list_set_in: "0 \<le> i \<Longrightarrow> i < int (length xs) \<Longrightarrow> list_set xs i v = Inr (xs[nat i := v])"
  by (simp add: list_set_def py_index_def)

section \<open>Roots and path compression\<close>

text \<open>
  \<open>root_of l i r\<close>: following the parent pointers of \<open>l\<close> from \<open>i\<close>, all of them inside the
  list, ends at the root \<open>r\<close>. \<open>visits l i k\<close>: \<open>k\<close> is one of the nodes on that way, the
  nodes \<^verbatim>\<open>find(i)\<close> is called on.
\<close>

inductive root_of :: "int list \<Rightarrow> int \<Rightarrow> int \<Rightarrow> bool" for l :: "int list" where
  root: "0 \<le> i \<Longrightarrow> i < int (length l) \<Longrightarrow> l ! nat i = i \<Longrightarrow> root_of l i i"
| step: "0 \<le> i \<Longrightarrow> i < int (length l) \<Longrightarrow> l ! nat i \<noteq> i \<Longrightarrow> root_of l (l ! nat i) r \<Longrightarrow> root_of l i r"

inductive visits :: "int list \<Rightarrow> int \<Rightarrow> int \<Rightarrow> bool" for l :: "int list" where
  here: "visits l i i"
| up: "0 \<le> i \<Longrightarrow> i < int (length l) \<Longrightarrow> l ! nat i \<noteq> i \<Longrightarrow> visits l (l ! nat i) k \<Longrightarrow> visits l i k"

lemma root_of_range: "root_of l i r \<Longrightarrow> 0 \<le> i \<and> i < int (length l)"
  by (erule root_of.cases) auto

lemma root_of_is_root: "root_of l i r \<Longrightarrow> 0 \<le> r \<and> r < int (length l) \<and> l ! nat r = r"
  by (induction rule: root_of.induct) auto

lemma root_of_root: "root_of l i r \<Longrightarrow> root_of l r r"
  by (auto dest: root_of_is_root intro: root_of.root)

lemma root_of_det: "root_of l i r \<Longrightarrow> root_of l i s \<Longrightarrow> r = s"
proof (induction arbitrary: s rule: root_of.induct)
  case (root i)
  from root.prems root.hyps show ?case by (cases rule: root_of.cases) auto
next
  case (step i r)
  from step.prems step.hyps(3) have "root_of l (l ! nat i) s"
    by (cases rule: root_of.cases) auto
  then show ?case by (rule step.IH)
qed

lemma root_of_self: "root_of l r r \<Longrightarrow> l ! nat r = r"
  by (auto dest: root_of_is_root)

lemma visits_root: "root_of l i r \<Longrightarrow> visits l i r"
  by (induction rule: root_of.induct) (auto intro: visits.intros)

lemma visits_root_of: "visits l i k \<Longrightarrow> root_of l i r \<Longrightarrow> root_of l k r"
proof (induction rule: visits.induct)
  case (here i)
  then show ?case .
next
  case (up i k)
  from up.prems up.hyps(3) have "root_of l (l ! nat i) r"
    by (cases rule: root_of.cases) auto
  then show ?case by (rule up.IH)
qed

lemma compress_one:
  assumes ir: "root_of l i r" and js: "root_of l j s"
  shows "root_of (l[nat i := r]) j s"
proof -
  have irng: "0 \<le> i" "i < int (length l)" using root_of_range [OF ir] by auto
  have rr: "0 \<le> r" "r < int (length l)" "l ! nat r = r" using root_of_is_root [OF ir] by auto
  show ?thesis using js
  proof (induction rule: root_of.induct)
    case (root j)
    have "l[nat i := r] ! nat j = j"
    proof (cases "j = i")
      case True
      have "root_of l j j" using root.hyps by (rule root_of.root)
      with ir True have "r = j" using root_of_det by blast
      with root.hyps True show ?thesis by simp
    next
      case False
      with root.hyps irng show ?thesis by (simp add: nat_eq_iff)
    qed
    with root.hyps show ?case by - (rule root_of.root, simp_all)
  next
    case (step j s)
    show ?case
    proof (cases "j = i")
      case True
      have "root_of l j s" using step.hyps by (rule root_of.step)
      with ir True have rs: "r = s" using root_of_det by blast
      from rr step.hyps True have ne: "r \<noteq> i" by auto
      with rr irng have "l[nat i := r] ! nat r = r" by (simp add: nat_eq_iff)
      with rr have r': "root_of (l[nat i := r]) r r" by - (rule root_of.root, simp_all)
      have upd: "l[nat i := r] ! nat i = r" using irng by simp
      show ?thesis unfolding True rs [symmetric]
        using irng ne upd r' by - (rule root_of.step, simp_all)
    next
      case False
      with step.hyps irng have "l[nat i := r] ! nat j = l ! nat j" by (simp add: nat_eq_iff)
      with step.hyps step.IH show ?thesis by - (rule root_of.step, simp_all)
    qed
  qed
qed



lemma find_root_aux:
  "root_of l i r \<Longrightarrow> parent uf = l \<Longrightarrow>
   \<exists>ps. find uf i = ok (uf\<lparr>parent := ps\<rparr>, r) \<and> length ps = length l
      \<and> (\<forall>j s. root_of l j s \<longrightarrow> root_of ps j s)
      \<and> (\<forall>k. visits l i k \<longrightarrow> ps ! nat k = r)
      \<and> (\<forall>k. 0 \<le> k \<and> \<not> visits l i k \<longrightarrow> ps ! nat k = l ! nat k)"
proof (induction arbitrary: uf rule: root_of.induct)
  case (root i)
  have "find uf i = ok (uf\<lparr>parent := l\<rparr>, i)"
    using root by (subst find.simps) (simp add: list_get_in)
  moreover have "\<forall>k. visits l i k \<longrightarrow> l ! nat k = i"
    using root.hyps by (auto elim: visits.cases)
  ultimately show ?case by blast
next
  case (step i r)
  from step.IH [OF step.prems] obtain ps1 where
    f1: "find uf (l ! nat i) = ok (uf\<lparr>parent := ps1\<rparr>, r)" and
    len1: "length ps1 = length l" and
    pres1: "\<forall>j s. root_of l j s \<longrightarrow> root_of ps1 j s" and
    vis1: "\<forall>k. visits l (l ! nat i) k \<longrightarrow> ps1 ! nat k = r" and
    nvis1: "\<forall>k. 0 \<le> k \<and> \<not> visits l (l ! nat i) k \<longrightarrow> ps1 ! nat k = l ! nat k"
    by blast
  let ?ps = "ps1[nat i := r]"
  have ir: "root_of l i r" using step.hyps by (auto intro: root_of.step)
  have "find uf i = ok (uf\<lparr>parent := ?ps\<rparr>, r)"
    using step.hyps step.prems f1 len1
    by (subst find.simps) (simp add: list_get_in list_set_in)
  moreover have "length ?ps = length l" using len1 by simp
  moreover have "\<forall>j s. root_of l j s \<longrightarrow> root_of ?ps j s"
    using pres1 ir by (auto intro: compress_one)
  moreover have "\<forall>k. visits l i k \<longrightarrow> ?ps ! nat k = r"
  proof (intro allI impI)
    fix k assume v: "visits l i k"
    show "?ps ! nat k = r"
    proof (cases "k = i")
      case True
      then show ?thesis using step.hyps len1 by simp
    next
      case False
      with v have v': "visits l (l ! nat i) k" by (auto elim: visits.cases)
      have "0 \<le> k" using visits_root_of [OF v ir] by (auto dest: root_of_range)
      with False step.hyps have "nat k \<noteq> nat i" by (simp add: nat_eq_iff)
      with v' vis1 show ?thesis by simp
    qed
  qed
  moreover have "\<forall>k. 0 \<le> k \<and> \<not> visits l i k \<longrightarrow> ?ps ! nat k = l ! nat k"
  proof (intro allI impI)
    fix k assume k: "0 \<le> k \<and> \<not> visits l i k"
    then have "k \<noteq> i" by (auto intro: visits.here)
    with k step.hyps have ne: "nat k \<noteq> nat i" by (simp add: nat_eq_iff)
    from k step.hyps have "\<not> visits l (l ! nat i) k" by (auto intro: visits.up)
    with nvis1 k ne show "?ps ! nat k = l ! nat k" by simp
  qed
  ultimately show ?case by blast
qed

lemma find_root:
  assumes "root_of (parent uf) i r"
  shows "\<exists>ps. find uf i = ok (uf\<lparr>parent := ps\<rparr>, r) \<and> length ps = length (parent uf)
      \<and> (\<forall>j s. root_of (parent uf) j s \<longrightarrow> root_of ps j s)
      \<and> (\<forall>k. visits (parent uf) i k \<longrightarrow> ps ! nat k = r)
      \<and> (\<forall>k. 0 \<le> k \<and> \<not> visits (parent uf) i k \<longrightarrow> ps ! nat k = parent uf ! nat k)"
  using find_root_aux [OF assms refl] .

lemma union_spec:
  assumes rx: "root_of (parent uf) x rx" and ry: "root_of (parent uf) y ry"
    and len: "length (rank uf) = length (parent uf)"
  shows "\<exists>ps. length ps = length (parent uf)
      \<and> (\<forall>j s. root_of (parent uf) j s \<longrightarrow> root_of ps j s)
      \<and> union uf x y = ok
           (if rx = ry then (uf\<lparr>parent := ps\<rparr>, False)
            else if rank uf ! nat rx < rank uf ! nat ry
              then (uf\<lparr>parent := ps[nat rx := ry]\<rparr>, True)
            else if rank uf ! nat rx = rank uf ! nat ry
              then (uf\<lparr>parent := ps[nat ry := rx],
                       rank := (rank uf)[nat rx := rank uf ! nat rx + 1]\<rparr>, True)
            else (uf\<lparr>parent := ps[nat ry := rx]\<rparr>, True))"
proof -
  from find_root [OF rx] obtain ps1 where
    f1: "find uf x = ok (uf\<lparr>parent := ps1\<rparr>, rx)" and
    len1: "length ps1 = length (parent uf)" and
    pres1: "\<forall>j s. root_of (parent uf) j s \<longrightarrow> root_of ps1 j s"
    by blast
  from pres1 ry have "root_of (parent (uf\<lparr>parent := ps1\<rparr>)) y ry" by simp
  from find_root [OF this] obtain ps2 where
    f2: "find (uf\<lparr>parent := ps1\<rparr>) y = ok (uf\<lparr>parent := ps2\<rparr>, ry)" and
    len2: "length ps2 = length ps1" and
    pres2: "\<forall>j s. root_of ps1 j s \<longrightarrow> root_of ps2 j s"
    by auto
  have rxr: "0 \<le> rx" "rx < int (length (parent uf))" using root_of_is_root [OF rx] by auto
  have ryr: "0 \<le> ry" "ry < int (length (parent uf))" using root_of_is_root [OF ry] by auto
  have "union uf x y = ok
           (if rx = ry then (uf\<lparr>parent := ps2\<rparr>, False)
            else if rank uf ! nat rx < rank uf ! nat ry
              then (uf\<lparr>parent := ps2[nat rx := ry]\<rparr>, True)
            else if rank uf ! nat rx = rank uf ! nat ry
              then (uf\<lparr>parent := ps2[nat ry := rx],
                       rank := (rank uf)[nat rx := rank uf ! nat rx + 1]\<rparr>, True)
            else (uf\<lparr>parent := ps2[nat ry := rx]\<rparr>, True))"
    using rxr ryr len len1 len2
    by (simp add: union_def f1 f2 list_get_in list_set_in)
  moreover have "length ps2 = length (parent uf)" using len1 len2 by simp
  moreover have "\<forall>j s. root_of (parent uf) j s \<longrightarrow> root_of ps2 j s"
    using pres1 pres2 by blast
  ultimately show ?thesis by blast
qed


section \<open>The sets of a Union-Find structure\<close>

text \<open>Two vertices are in the same set when their parent chains end at the same root. The
  invariant of the structure: both lists have the same length and every parent chain ends
  at a root.\<close>

definition same_set :: "int list \<Rightarrow> int \<Rightarrow> int \<Rightarrow> bool" where
  "same_set l a b \<longleftrightarrow> (\<exists>r. root_of l a r \<and> root_of l b r)"

definition uf_inv :: "union_find \<Rightarrow> bool" where
  "uf_inv uf \<longleftrightarrow> length (rank uf) = length (parent uf) \<and>
     (\<forall>i. 0 \<le> i \<and> i < int (length (parent uf)) \<longrightarrow> (\<exists>r. root_of (parent uf) i r))"

lemma link_root:
  assumes a: "root_of l a a" and b: "root_of l b b" and ne: "a \<noteq> b" and js: "root_of l j s"
  shows "root_of (l[nat b := a]) j (if s = b then a else s)"
proof -
  have ar: "0 \<le> a" "a < int (length l)" "l ! nat a = a" using root_of_is_root [OF a] by auto
  have br: "0 \<le> b" "b < int (length l)" "l ! nat b = b" using root_of_is_root [OF b] by auto
  have a': "root_of (l[nat b := a]) a a"
    using ar br ne by - (rule root_of.root, simp_all add: nat_eq_iff)
  show ?thesis using js
  proof (induction rule: root_of.induct)
    case (root j)
    show ?case
    proof (cases "j = b")
      case True
      have "root_of (l[nat b := a]) b a"
        using br ne a' by - (rule root_of.step, simp_all)
      with True show ?thesis by simp
    next
      case False
      with root.hyps br have "root_of (l[nat b := a]) j j"
        by - (rule root_of.root, simp_all add: nat_eq_iff)
      with False show ?thesis by simp
    qed
  next
    case (step j s)
    from step.hyps br have "j \<noteq> b" by auto
    with step.hyps br have "l[nat b := a] ! nat j = l ! nat j" by (simp add: nat_eq_iff)
    with step.hyps step.IH show ?case by - (rule root_of.step, simp_all)
  qed
qed


lemma same_set_sym: "same_set l a b \<Longrightarrow> same_set l b a"
  by (auto simp: same_set_def)

lemma same_set_trans: "same_set l a b \<Longrightarrow> same_set l b c \<Longrightarrow> same_set l a c"
  unfolding same_set_def using root_of_det by blast

lemma same_set_root: "root_of l a r \<Longrightarrow> root_of l b s \<Longrightarrow> same_set l a b \<longleftrightarrow> r = s"
  unfolding same_set_def using root_of_det by blast

lemma roots_transfer:
  assumes inv: "\<forall>i. 0 \<le> i \<and> i < int (length l) \<longrightarrow> (\<exists>r. root_of l i r)"
    and len: "length l' = length l"
    and pres: "\<forall>j s. root_of l j s \<longrightarrow> root_of l' j (f s)"
  shows "root_of l' j t \<longleftrightarrow> (\<exists>s. root_of l j s \<and> t = f s)"
proof
  assume t: "root_of l' j t"
  then have "0 \<le> j \<and> j < int (length l)" using len by (auto dest: root_of_range)
  with inv obtain s where s: "root_of l j s" by blast
  with pres have "root_of l' j (f s)" by blast
  with t have "t = f s" by (rule root_of_det)
  with s show "\<exists>s. root_of l j s \<and> t = f s" by blast
next
  assume "\<exists>s. root_of l j s \<and> t = f s"
  with pres show "root_of l' j t" by blast
qed


lemma link_same_set:
  assumes inv: "\<forall>i. 0 \<le> i \<and> i < int (length l) \<longrightarrow> (\<exists>r. root_of l i r)"
    and lo: "root_of l lo lo" and hi: "root_of l hi hi" and ne: "lo \<noteq> hi"
  shows "\<forall>i. 0 \<le> i \<and> i < int (length l) \<longrightarrow> (\<exists>r. root_of (l[nat lo := hi]) i r)"
    and "same_set (l[nat lo := hi]) a c \<longleftrightarrow>
           same_set l a c \<or> (same_set l a lo \<and> same_set l hi c) \<or> (same_set l a hi \<and> same_set l lo c)"
proof -
  let ?f = "\<lambda>s. if s = lo then hi else s"
  have pres: "\<forall>j s. root_of l j s \<longrightarrow> root_of (l[nat lo := hi]) j (?f s)"
    using link_root [OF hi lo] ne by blast
  have tr: "\<And>j t. root_of (l[nat lo := hi]) j t \<longleftrightarrow> (\<exists>s. root_of l j s \<and> t = ?f s)"
    by (rule roots_transfer [OF inv _ pres]) simp
  show "\<forall>i. 0 \<le> i \<and> i < int (length l) \<longrightarrow> (\<exists>r. root_of (l[nat lo := hi]) i r)"
    using inv pres by blast
  show "same_set (l[nat lo := hi]) a c \<longleftrightarrow>
           same_set l a c \<or> (same_set l a lo \<and> same_set l hi c) \<or> (same_set l a hi \<and> same_set l lo c)"
  proof (cases "\<exists>sa sc. root_of l a sa \<and> root_of l c sc")
    case False
    then have "\<not> same_set l a c" "\<not> same_set (l[nat lo := hi]) a c"
      "\<not> (same_set l a lo \<and> same_set l hi c)" "\<not> (same_set l a hi \<and> same_set l lo c)"
      unfolding same_set_def tr by blast+
    then show ?thesis by blast
  next
    case True
    then obtain sa sc where sa: "root_of l a sa" and sc: "root_of l c sc" by blast
    have 1: "same_set (l[nat lo := hi]) a c \<longleftrightarrow> ?f sa = ?f sc"
      unfolding same_set_def tr using sa sc root_of_det by blast
    have 2: "same_set l a c \<longleftrightarrow> sa = sc" using sa sc by (rule same_set_root)
    have 3: "same_set l a lo \<longleftrightarrow> sa = lo" using sa lo by (rule same_set_root)
    have 4: "same_set l a hi \<longleftrightarrow> sa = hi" using sa hi by (rule same_set_root)
    have 5: "same_set l hi c \<longleftrightarrow> hi = sc" using hi sc by (rule same_set_root)
    have 6: "same_set l lo c \<longleftrightarrow> lo = sc" using lo sc by (rule same_set_root)
    show ?thesis unfolding 1 2 3 4 5 6 using ne by auto
  qed
qed

lemma union_ok:
  assumes inv: "uf_inv uf"
    and xr: "0 \<le> x" "x < int (length (parent uf))"
    and yr: "0 \<le> y" "y < int (length (parent uf))"
  shows "\<exists>uf' b. union uf x y = ok (uf', b) \<and> uf_inv uf'
      \<and> length (parent uf') = length (parent uf)
      \<and> (b \<longleftrightarrow> \<not> same_set (parent uf) x y)
      \<and> (\<forall>a c. same_set (parent uf') a c \<longleftrightarrow>
            same_set (parent uf) a c \<or> (same_set (parent uf) a x \<and> same_set (parent uf) y c)
            \<or> (same_set (parent uf) a y \<and> same_set (parent uf) x c))"
proof -
  let ?l = "parent uf"
  have invl: "\<forall>i. 0 \<le> i \<and> i < int (length ?l) \<longrightarrow> (\<exists>r. root_of ?l i r)"
    and len: "length (rank uf) = length ?l"
    using inv by (auto simp: uf_inv_def)
  from invl xr yr obtain rx ry where rx: "root_of ?l x rx" and ry: "root_of ?l y ry" by blast
  from union_spec [OF rx ry len] obtain ps where
    lps: "length ps = length ?l" and
    pres: "\<forall>j s. root_of ?l j s \<longrightarrow> root_of ps j (id s)" and
    un: "union uf x y = ok
           (if rx = ry then (uf\<lparr>parent := ps\<rparr>, False)
            else if rank uf ! nat rx < rank uf ! nat ry
              then (uf\<lparr>parent := ps[nat rx := ry]\<rparr>, True)
            else if rank uf ! nat rx = rank uf ! nat ry
              then (uf\<lparr>parent := ps[nat ry := rx],
                       rank := (rank uf)[nat rx := rank uf ! nat rx + 1]\<rparr>, True)
            else (uf\<lparr>parent := ps[nat ry := rx]\<rparr>, True))"
    by auto
  have tr: "\<And>j t. root_of ps j t \<longleftrightarrow> root_of ?l j t"
    using roots_transfer [OF invl lps pres] by simp
  have ss: "\<And>a c. same_set ps a c \<longleftrightarrow> same_set ?l a c"
    by (simp add: same_set_def tr)
  have invps: "\<forall>i. 0 \<le> i \<and> i < int (length ps) \<longrightarrow> (\<exists>r. root_of ps i r)"
    using invl lps tr by simp
  have xrx: "same_set ?l x rx" using rx by (auto simp: same_set_def dest: root_of_root)
  have yry: "same_set ?l y ry" using ry by (auto simp: same_set_def dest: root_of_root)
  have sxy: "same_set ?l x y \<longleftrightarrow> rx = ry" using rx ry by (rule same_set_root)
  have viax: "\<And>a. same_set ?l a rx \<longleftrightarrow> same_set ?l a x"
    using xrx same_set_trans same_set_sym by blast
  have viay: "\<And>a. same_set ?l a ry \<longleftrightarrow> same_set ?l a y"
    using yry same_set_trans same_set_sym by blast
  have viax': "\<And>a. same_set ?l rx a \<longleftrightarrow> same_set ?l x a"
    using xrx same_set_trans same_set_sym by blast
  have viay': "\<And>a. same_set ?l ry a \<longleftrightarrow> same_set ?l y a"
    using yry same_set_trans same_set_sym by blast
  show ?thesis
  proof (cases "rx = ry")
    case True
    have "\<And>a c. same_set ?l a c \<longleftrightarrow>
            same_set ?l a c \<or> (same_set ?l a x \<and> same_set ?l y c) \<or> (same_set ?l a y \<and> same_set ?l x c)"
      using sxy True same_set_trans same_set_sym by blast
    moreover have "uf_inv (uf\<lparr>parent := ps\<rparr>)"
      using invps len lps by (simp add: uf_inv_def)
    ultimately show ?thesis using un True sxy lps ss by auto
  next
    case False
    have rxps: "root_of ps rx rx" and ryps: "root_of ps ry ry"
      using rx ry tr by (auto dest: root_of_root)
    have A: "\<And>a c. same_set (ps[nat rx := ry]) a c \<longleftrightarrow>
            same_set ?l a c \<or> (same_set ?l a x \<and> same_set ?l y c) \<or> (same_set ?l a y \<and> same_set ?l x c)"
      using link_same_set(2) [OF invps rxps ryps False] by (auto simp: ss viax viay viax' viay')
    have B: "\<And>a c. same_set (ps[nat ry := rx]) a c \<longleftrightarrow>
            same_set ?l a c \<or> (same_set ?l a x \<and> same_set ?l y c) \<or> (same_set ?l a y \<and> same_set ?l x c)"
      using link_same_set(2) [OF invps ryps rxps False [symmetric]] by (auto simp: ss viax viay viax' viay')
    have IA: "\<forall>i. 0 \<le> i \<and> i < int (length ps) \<longrightarrow> (\<exists>r. root_of (ps[nat rx := ry]) i r)"
      using link_same_set(1) [OF invps rxps ryps False] .
    have IB: "\<forall>i. 0 \<le> i \<and> i < int (length ps) \<longrightarrow> (\<exists>r. root_of (ps[nat ry := rx]) i r)"
      using link_same_set(1) [OF invps ryps rxps False [symmetric]] .
    show ?thesis
    proof (cases "rank uf ! nat rx < rank uf ! nat ry")
      case True
      have "uf_inv (uf\<lparr>parent := ps[nat rx := ry]\<rparr>)"
        using IA len lps by (simp add: uf_inv_def)
      then show ?thesis using un False True sxy lps A by auto
    next
      case nlt: False
      have "uf_inv (uf\<lparr>parent := ps[nat ry := rx]\<rparr>)"
        and "uf_inv (uf\<lparr>parent := ps[nat ry := rx], rank := (rank uf)[nat rx := rank uf ! nat rx + 1]\<rparr>)"
        using IB len lps by (simp_all add: uf_inv_def)
      then show ?thesis using un False nlt sxy lps B by auto
    qed
  qed
qed

section \<open>Reachable states\<close>

text \<open>The states a \<^verbatim>\<open>UnionFind(n)\<close> object can be in after calls of \<^verbatim>\<open>find\<close> and \<^verbatim>\<open>union\<close>
  with arguments in \<open>[0, n]\<close>.\<close>

inductive reachable :: "int \<Rightarrow> union_find \<Rightarrow> bool" for n :: int where
  init: "reachable n (UnionFind n)"
| by_find: "reachable n uf \<Longrightarrow> 0 \<le> x \<Longrightarrow> x \<le> n \<Longrightarrow> find uf x = ok (uf', r) \<Longrightarrow> reachable n uf'"
| by_union: "reachable n uf \<Longrightarrow> 0 \<le> x \<Longrightarrow> x \<le> n \<Longrightarrow> 0 \<le> y \<Longrightarrow> y \<le> n \<Longrightarrow>
     union uf x y = ok (uf', b) \<Longrightarrow> reachable n uf'"

lemma UnionFind_length: "length (parent (UnionFind n)) = nat (n + 1)"
  by (simp add: UnionFind_def)

lemma UnionFind_root: "0 \<le> i \<Longrightarrow> i \<le> n \<Longrightarrow> root_of (parent (UnionFind n)) i i"
  by (rule root_of.root) (simp_all add: UnionFind_def)

lemma UnionFind_inv: "uf_inv (UnionFind n)"
  unfolding uf_inv_def
proof (intro conjI allI impI)
  show "length (rank (UnionFind n)) = length (parent (UnionFind n))"
    by (simp add: UnionFind_def)
next
  fix i assume "0 \<le> i \<and> i < int (length (parent (UnionFind n)))"
  then have "0 \<le> i" "i \<le> n" by (auto simp: UnionFind_def split: if_splits)
  then show "\<exists>r. root_of (parent (UnionFind n)) i r" using UnionFind_root by blast
qed

lemma UnionFind_same_set:
  "0 \<le> a \<Longrightarrow> a \<le> n \<Longrightarrow> 0 \<le> b \<Longrightarrow> b \<le> n \<Longrightarrow> same_set (parent (UnionFind n)) a b \<longleftrightarrow> a = b"
  using same_set_root [OF UnionFind_root UnionFind_root] by blast

lemma find_ok:
  assumes inv: "uf_inv uf" and xr: "0 \<le> x" "x < int (length (parent uf))"
  shows "\<exists>uf' r. find uf x = ok (uf', r) \<and> uf_inv uf' \<and> length (parent uf') = length (parent uf)
      \<and> rank uf' = rank uf \<and> root_of (parent uf) x r
      \<and> (\<forall>j t. root_of (parent uf') j t \<longleftrightarrow> root_of (parent uf) j t)
      \<and> (\<forall>k. visits (parent uf) x k \<longrightarrow> parent uf' ! nat k = r)"
proof -
  have invl: "\<forall>i. 0 \<le> i \<and> i < int (length (parent uf)) \<longrightarrow> (\<exists>r. root_of (parent uf) i r)"
    and len: "length (rank uf) = length (parent uf)"
    using inv by (auto simp: uf_inv_def)
  from invl xr obtain r where r: "root_of (parent uf) x r" by blast
  from find_root [OF r] obtain ps where
    f: "find uf x = ok (uf\<lparr>parent := ps\<rparr>, r)" and lps: "length ps = length (parent uf)" and
    pres: "\<forall>j s. root_of (parent uf) j s \<longrightarrow> root_of ps j (id s)" and
    vis: "\<forall>k. visits (parent uf) x k \<longrightarrow> ps ! nat k = r"
    by auto
  have tr: "\<And>j t. root_of ps j t \<longleftrightarrow> root_of (parent uf) j t"
    using roots_transfer [OF invl lps pres] by simp
  have "uf_inv (uf\<lparr>parent := ps\<rparr>)"
    using invl len lps tr by (simp add: uf_inv_def)
  with f lps r tr vis show ?thesis by auto
qed

lemma reachable_inv: "reachable n uf \<Longrightarrow> uf_inv uf \<and> length (parent uf) = nat (n + 1)"
proof (induction rule: reachable.induct)
  case init
  show ?case by (simp add: UnionFind_inv UnionFind_length)
next
  case (by_find uf x uf' r)
  then have "uf_inv uf" "0 \<le> x" "x < int (length (parent uf))" by auto
  from find_ok [OF this] by_find show ?case by auto
next
  case (by_union uf x y uf' b)
  then have "uf_inv uf" "0 \<le> x" "x < int (length (parent uf))" "0 \<le> y" "y < int (length (parent uf))"
    by auto
  from union_ok [OF this] by_union show ?case by auto
qed

section \<open>Sequences of unions\<close>

text \<open>A sequence of \<^verbatim>\<open>union\<close> calls on one object; the results of the calls are dropped.\<close>

fun unions :: "union_find \<Rightarrow> (int \<times> int) list \<Rightarrow> union_find result" where
  "unions uf [] = ok uf"
| "unions uf ((x, y) # ps) = bindr (union uf x y) (\<lambda>(uf', merged). unions uf' ps)"

text \<open>Connection by a set of pairs, used in either direction: the reflexive, symmetric and
  transitive closure.\<close>

definition conn :: "('a \<times> 'a) set \<Rightarrow> ('a \<times> 'a) set" where
  "conn R = (R \<union> R\<inverse>)\<^sup>*"

lemma conn_refl [simp]: "(a, a) \<in> conn R"
  by (simp add: conn_def)

lemma conn_sym: "(a, b) \<in> conn R \<Longrightarrow> (b, a) \<in> conn R"
proof -
  assume "(a, b) \<in> conn R"
  then have "(b, a) \<in> ((R \<union> R\<inverse>)\<^sup>*)\<inverse>" by (simp add: conn_def)
  also have "((R \<union> R\<inverse>)\<^sup>*)\<inverse> = ((R \<union> R\<inverse>)\<inverse>)\<^sup>*" by (rule rtrancl_converse [symmetric])
  also have "(R \<union> R\<inverse>)\<inverse> = R \<union> R\<inverse>" by auto
  finally show ?thesis by (simp add: conn_def)
qed

lemma conn_trans: "(a, b) \<in> conn R \<Longrightarrow> (b, c) \<in> conn R \<Longrightarrow> (a, c) \<in> conn R"
  by (simp add: conn_def)

lemma conn_mono: "R \<subseteq> S \<Longrightarrow> (a, b) \<in> conn R \<Longrightarrow> (a, b) \<in> conn S"
proof -
  assume "R \<subseteq> S"
  then have "R \<union> R\<inverse> \<subseteq> S \<union> S\<inverse>" by auto
  then have "(R \<union> R\<inverse>)\<^sup>* \<subseteq> (S \<union> S\<inverse>)\<^sup>*" by (rule rtrancl_mono)
  then show "(a, b) \<in> conn R \<Longrightarrow> (a, b) \<in> conn S" by (auto simp: conn_def)
qed

lemma conn_edge: "(a, b) \<in> R \<Longrightarrow> (a, b) \<in> conn R"
  by (auto simp: conn_def)

lemma conn_empty [simp]: "(a, b) \<in> conn {} \<longleftrightarrow> a = b"
  by (simp add: conn_def)

lemma conn_insert_iff:
  "(a, b) \<in> conn (insert (x, y) R) \<longleftrightarrow>
     (a, b) \<in> conn R \<or> ((a, x) \<in> conn R \<and> (y, b) \<in> conn R) \<or> ((a, y) \<in> conn R \<and> (x, b) \<in> conn R)"
  (is "?L \<longleftrightarrow> ?R a b")
proof
  assume ?L
  then have "(a, b) \<in> (insert (x, y) R \<union> (insert (x, y) R)\<inverse>)\<^sup>*" by (simp add: conn_def)
  then show "?R a b"
  proof (induction rule: rtrancl_induct)
    case base
    show ?case by simp
  next
    case (step b c)
    from step.hyps(2) have "(b, c) \<in> conn R \<or> (b = x \<and> c = y) \<or> (b = y \<and> c = x)"
      by (auto intro: conn_edge conn_sym)
    with step.IH show ?case
      using conn_trans [of _ _ R] conn_refl [of _ R] by metis
  qed
next
  have sub: "R \<subseteq> insert (x, y) R" by auto
  have xy: "(x, y) \<in> conn (insert (x, y) R)" by (rule conn_edge) simp
  assume "?R a b"
  then show ?L
    using conn_mono [OF sub] xy conn_sym [OF xy] conn_trans [of _ _ "insert (x, y) R"] by metis
qed

lemma unions_correct:
  assumes "uf_inv uf" and "length (parent uf) = nat (n + 1)"
    and "\<forall>(x, y) \<in> set ps. 0 \<le> x \<and> x \<le> n \<and> 0 \<le> y \<and> y \<le> n"
    and "\<forall>a b. 0 \<le> a \<and> a \<le> n \<and> 0 \<le> b \<and> b \<le> n \<longrightarrow>
           (same_set (parent uf) a b \<longleftrightarrow> (a, b) \<in> conn R)"
  shows "\<exists>uf'. unions uf ps = ok uf' \<and> uf_inv uf' \<and> length (parent uf') = nat (n + 1) \<and>
           (\<forall>a b. 0 \<le> a \<and> a \<le> n \<and> 0 \<le> b \<and> b \<le> n \<longrightarrow>
              (same_set (parent uf') a b \<longleftrightarrow> (a, b) \<in> conn (R \<union> set ps)))"
  using assms
proof (induction ps arbitrary: uf R)
  case Nil
  then show ?case by simp
next
  case (Cons p ps)
  obtain x y where p: "p = (x, y)" by (cases p)
  from Cons.prems(3) p have xy: "0 \<le> x" "x \<le> n" "0 \<le> y" "y \<le> n" by auto
  then have "0 \<le> x" "x < int (length (parent uf))" "0 \<le> y" "y < int (length (parent uf))"
    using Cons.prems(2) by auto
  from union_ok [OF Cons.prems(1) this] obtain uf1 b where
    u: "union uf x y = ok (uf1, b)" and inv1: "uf_inv uf1" and
    len1: "length (parent uf1) = length (parent uf)" and
    ss: "\<forall>a c. same_set (parent uf1) a c \<longleftrightarrow>
            same_set (parent uf) a c \<or> (same_set (parent uf) a x \<and> same_set (parent uf) y c)
            \<or> (same_set (parent uf) a y \<and> same_set (parent uf) x c)"
    by blast
  have base1: "\<forall>a b. 0 \<le> a \<and> a \<le> n \<and> 0 \<le> b \<and> b \<le> n \<longrightarrow>
           (same_set (parent uf1) a b \<longleftrightarrow> (a, b) \<in> conn (insert (x, y) R))"
    unfolding conn_insert_iff using ss Cons.prems(4) xy by simp
  have "\<exists>uf'. unions uf1 ps = ok uf' \<and> uf_inv uf' \<and> length (parent uf') = nat (n + 1) \<and>
           (\<forall>a b. 0 \<le> a \<and> a \<le> n \<and> 0 \<le> b \<and> b \<le> n \<longrightarrow>
              (same_set (parent uf') a b \<longleftrightarrow> (a, b) \<in> conn (insert (x, y) R \<union> set ps)))"
    using inv1 len1 Cons.prems(2,3) base1 by (intro Cons.IH) auto
  then show ?case using u p by simp
qed

section \<open>Spanning forests\<close>

text \<open>
  The graph of an edge list is undirected: an edge \<open>(u, v, w)\<close> joins \<open>u\<close> and \<open>v\<close> in both
  directions. A set of edges is a forest when no edge of it joins two vertices that the
  other edges already connect (so it has no cycle, no loop and no parallel edges). A
  spanning forest of \<open>E\<close> is a forest inside \<open>E\<close> that connects whatever \<open>E\<close> connects, and
  its weight is the sum of the weights of its edges.
\<close>

definition endpoints :: "edge set \<Rightarrow> (int \<times> int) set" where
  "endpoints F = {(u, v). \<exists>w. (u, v, w) \<in> F}"

definition connected :: "edge set \<Rightarrow> int \<Rightarrow> int \<Rightarrow> bool" where
  "connected F a b \<longleftrightarrow> (a, b) \<in> conn (endpoints F)"

definition forest :: "edge set \<Rightarrow> bool" where
  "forest F \<longleftrightarrow> (\<forall>(u, v, w) \<in> F. \<not> connected (F - {(u, v, w)}) u v)"

definition weight :: "edge set \<Rightarrow> int" where
  "weight F = (\<Sum>(u, v, w) \<in> F. w)"

definition spanning_forest :: "edge set \<Rightarrow> edge set \<Rightarrow> bool" where
  "spanning_forest E F \<longleftrightarrow> F \<subseteq> E \<and> forest F \<and> (\<forall>(u, v, w) \<in> E. connected F u v)"

definition min_spanning_forest :: "edge set \<Rightarrow> edge set \<Rightarrow> bool" where
  "min_spanning_forest E F \<longleftrightarrow>
     spanning_forest E F \<and> (\<forall>F'. spanning_forest E F' \<longrightarrow> weight F \<le> weight F')"

lemma connected_refl [simp]: "connected F a a"
  by (simp add: connected_def)

lemma connected_sym: "connected F a b \<Longrightarrow> connected F b a"
  unfolding connected_def by (rule conn_sym)

lemma connected_trans: "connected F a b \<Longrightarrow> connected F b c \<Longrightarrow> connected F a c"
  unfolding connected_def by (rule conn_trans)

lemma endpoints_mono: "F \<subseteq> G \<Longrightarrow> endpoints F \<subseteq> endpoints G"
  by (auto simp: endpoints_def)

lemma connected_mono: "F \<subseteq> G \<Longrightarrow> connected F a b \<Longrightarrow> connected G a b"
  unfolding connected_def using conn_mono [OF endpoints_mono] by blast

lemma connected_edge: "(u, v, w) \<in> F \<Longrightarrow> connected F u v"
  unfolding connected_def by (rule conn_edge) (force simp: endpoints_def)

lemma endpoints_insert: "endpoints (insert (u, v, w) F) = insert (u, v) (endpoints F)"
  by (auto simp: endpoints_def)

lemma connected_insert_iff:
  "connected (insert (u, v, w) F) a b \<longleftrightarrow>
     connected F a b \<or> (connected F a u \<and> connected F v b) \<or> (connected F a v \<and> connected F u b)"
  unfolding connected_def endpoints_insert by (rule conn_insert_iff)

lemma connected_empty [simp]: "connected {} a b \<longleftrightarrow> a = b"
  by (simp add: connected_def endpoints_def)

text \<open>If \<open>B\<close> connects the two ends of every edge of \<open>A\<close>, it connects what \<open>A\<close> connects.\<close>

lemma connected_closure:
  assumes edges: "\<forall>(u, v, w) \<in> A. connected B u v" and ab: "connected A a b"
  shows "connected B a b"
proof -
  from ab have "(a, b) \<in> (endpoints A \<union> (endpoints A)\<inverse>)\<^sup>*"
    by (simp add: connected_def conn_def)
  then show ?thesis
  proof (induction rule: rtrancl_induct)
    case base
    show ?case by simp
  next
    case (step y z)
    from step.hyps(2) edges have "connected B y z"
      by (auto simp: endpoints_def intro: connected_sym)
    with step.IH show ?case by (rule connected_trans)
  qed
qed

text \<open>A set of vertices that no edge of \<open>G\<close> leaves is closed under connection.\<close>

lemma connected_stays:
  assumes closed: "\<forall>(u, v, w) \<in> G. u \<in> S \<longleftrightarrow> v \<in> S" and ab: "connected G a b"
  shows "a \<in> S \<longleftrightarrow> b \<in> S"
proof -
  from ab have "(a, b) \<in> (endpoints G \<union> (endpoints G)\<inverse>)\<^sup>*"
    by (simp add: connected_def conn_def)
  then show ?thesis
  proof (induction rule: rtrancl_induct)
    case base
    show ?case by simp
  next
    case (step y z)
    from step.hyps(2) closed have "y \<in> S \<longleftrightarrow> z \<in> S"
      by (auto simp: endpoints_def)
    with step.IH show ?case by simp
  qed
qed

lemma forest_empty [simp]: "forest {}"
  by (simp add: forest_def)

lemma forest_subset:
  assumes "forest F" and "G \<subseteq> F"
  shows "forest G"
  unfolding forest_def
proof (clarify)
  fix u v w assume e: "(u, v, w) \<in> G" and c: "connected (G - {(u, v, w)}) u v"
  have "G - {(u, v, w)} \<subseteq> F - {(u, v, w)}" using assms(2) by auto
  from connected_mono [OF this c] have "connected (F - {(u, v, w)}) u v" .
  moreover have "(u, v, w) \<in> F" using e assms(2) by auto
  ultimately show False using assms(1) by (auto simp: forest_def)
qed

lemma forest_insert:
  assumes f: "forest F" and nc: "\<not> connected F u v"
  shows "forest (insert (u, v, w) F)"
  unfolding forest_def
proof (clarify)
  fix a b c
  assume e: "(a, b, c) \<in> insert (u, v, w) F"
    and c: "connected (insert (u, v, w) F - {(a, b, c)}) a b"
  have notin: "(u, v, w) \<notin> F" using nc connected_edge by blast
  show False
  proof (cases "(a, b, c) = (u, v, w)")
    case True
    then have "insert (u, v, w) F - {(a, b, c)} = F" using notin by auto
    with c True nc show False by simp
  next
    case False
    with e have inF: "(a, b, c) \<in> F" by blast
    have eq: "insert (u, v, w) F - {(a, b, c)} = insert (u, v, w) (F - {(a, b, c)})"
      using False by auto
    have nab: "\<not> connected (F - {(a, b, c)}) a b" using f inF by (auto simp: forest_def)
    have sub: "F - {(a, b, c)} \<subseteq> F" by auto
    have ab: "connected F a b" using inF by (rule connected_edge)
    from c eq nab have
      "(connected (F - {(a, b, c)}) a u \<and> connected (F - {(a, b, c)}) v b) \<or>
       (connected (F - {(a, b, c)}) a v \<and> connected (F - {(a, b, c)}) u b)"
      by (simp add: connected_insert_iff)
    then have "(connected F a u \<and> connected F v b) \<or> (connected F a v \<and> connected F u b)"
      using connected_mono [OF sub] by blast
    then have "connected F u v"
      using ab connected_sym connected_trans by blast
    with nc show False by simp
  qed
qed


lemma spanning_forest_exists:
  assumes "finite E"
  shows "\<exists>F. spanning_forest E F"
  using assms
proof (induction rule: finite_induct)
  case empty
  show ?case by (simp add: spanning_forest_def)
next
  case (insert e E)
  then obtain F where F: "F \<subseteq> E" "forest F" "\<forall>(u, v, w) \<in> E. connected F u v"
    by (auto simp: spanning_forest_def)
  obtain u v w where e: "e = (u, v, w)" by (cases e)
  show ?case
  proof (cases "connected F u v")
    case True
    with F e have "spanning_forest (insert e E) F"
      by (auto simp: spanning_forest_def)
    then show ?thesis ..
  next
    case False
    have sub: "F \<subseteq> insert e F" by auto
    have "forest (insert e F)" unfolding e using F(2) False by (rule forest_insert)
    moreover have "\<forall>(a, b, c) \<in> insert e E. connected (insert e F) a b"
      using F(3) connected_mono [OF sub] connected_edge [of u v w "insert e F"] e by auto
    ultimately have "spanning_forest (insert e E) (insert e F)"
      using F(1) by (auto simp: spanning_forest_def)
    then show ?thesis ..
  qed
qed

lemma min_spanning_forest_exists:
  assumes fin: "finite E"
  shows "\<exists>M. min_spanning_forest E M"
proof -
  let ?S = "{F. spanning_forest E F}"
  have "?S \<subseteq> Pow E" by (auto simp: spanning_forest_def)
  then have finS: "finite ?S" using fin by (auto intro: finite_subset)
  have ne: "?S \<noteq> {}" using spanning_forest_exists [OF fin] by auto
  have finW: "finite (weight ` ?S)" using finS by simp
  have neW: "weight ` ?S \<noteq> {}" using ne by simp
  from Min_in [OF finW neW] obtain M where M: "spanning_forest E M" "weight M = Min (weight ` ?S)"
    by auto
  have "\<forall>F'. spanning_forest E F' \<longrightarrow> weight M \<le> weight F'"
    using Min_le [OF finW] M(2) by auto
  with M(1) show ?thesis by (auto simp: min_spanning_forest_def)
qed

text \<open>When adding the finitely many edges of \<open>D\<close> to \<open>G0\<close> connects \<open>u\<close> and \<open>v\<close>, one edge of
  \<open>D\<close> is the one that connects them.\<close>

lemma connecting_edge:
  assumes "finite D" and "\<not> connected G0 u v" and "connected (G0 \<union> D) u v"
  shows "\<exists>d G. d \<in> D \<and> G0 \<subseteq> G \<and> G \<subseteq> G0 \<union> D \<and> d \<notin> G
            \<and> \<not> connected G u v \<and> connected (insert d G) u v"
  using assms
proof (induction rule: finite_induct)
  case empty
  then show ?case by simp
next
  case (insert d D)
  show ?case
  proof (cases "connected (G0 \<union> D) u v")
    case True
    from insert.IH [OF insert.prems(1) True] obtain d' G where dG:
      "d' \<in> D" "G0 \<subseteq> G" "G \<subseteq> G0 \<union> D" "d' \<notin> G" "\<not> connected G u v" "connected (insert d' G) u v"
      by blast
    have "G \<subseteq> G0 \<union> insert d D" using dG(3) by blast
    with dG show ?thesis
      by (intro exI [of _ d'] exI [of _ G]) simp
  next
    case False
    have c: "connected (insert d (G0 \<union> D)) u v" using insert.prems(2) by simp
    have notin: "d \<notin> G0 \<union> D"
    proof
      assume "d \<in> G0 \<union> D"
      then have "insert d (G0 \<union> D) = G0 \<union> D" by blast
      with c False show False by metis
    qed
    have s1: "G0 \<subseteq> G0 \<union> D" and s2: "G0 \<union> D \<subseteq> G0 \<union> insert d D" by blast+
    from notin False c s1 s2 show ?thesis
      by (intro exI [of _ d] exI [of _ "G0 \<union> D"]) simp
  qed
qed

lemma weight_insert: "finite F \<Longrightarrow> (u, v, w) \<notin> F \<Longrightarrow> weight (insert (u, v, w) F) = w + weight F"
  by (simp add: weight_def)

lemma weight_remove: "finite F \<Longrightarrow> (u, v, w) \<in> F \<Longrightarrow> weight F = w + weight (F - {(u, v, w)})"
  by (simp add: weight_def sum.remove)

text \<open>A forest that lies inside another and connects the ends of all its edges is equal to it.\<close>

lemma forest_maximal:
  assumes M: "forest M" and sub: "F \<subseteq> M" and con: "\<forall>(u, v, w) \<in> M. connected F u v"
  shows "F = M"
proof (rule ccontr)
  assume "F \<noteq> M"
  with sub obtain u v w where e: "(u, v, w) \<in> M" "(u, v, w) \<notin> F" by auto
  then have "F \<subseteq> M - {(u, v, w)}" using sub by auto
  moreover have "connected F u v" using con e(1) by auto
  ultimately have "connected (M - {(u, v, w)}) u v" by (rule connected_mono)
  with M e(1) show False by (auto simp: forest_def)
qed


text \<open>
  The exchange step behind both algorithms. Let \<open>F\<close> be part of a minimum spanning forest,
  let no edge of \<open>F\<close> cross the cut \<open>S\<close>, and let \<open>(u, v, w)\<close> be an edge of the graph that
  crosses it and is as light as any edge that does. Then \<open>F\<close> with that edge is again part of
  a minimum spanning forest.
\<close>

lemma cut_exchange:
  assumes fin: "finite E"
    and M: "min_spanning_forest E M"
    and FM: "F \<subseteq> M"
    and e: "(u, v, w) \<in> E"
    and cut: "u \<in> S \<longleftrightarrow> v \<notin> S"
    and nocross: "\<forall>(a, b, c) \<in> F. a \<in> S \<longleftrightarrow> b \<in> S"
    and light: "\<forall>(a, b, c) \<in> E. (a \<in> S \<longleftrightarrow> b \<notin> S) \<longrightarrow> w \<le> c"
  shows "\<exists>M'. min_spanning_forest E M' \<and> insert (u, v, w) F \<subseteq> M'"
proof (cases "(u, v, w) \<in> M")
  case True
  with FM have "insert (u, v, w) F \<subseteq> M" by simp
  with M show ?thesis by blast
next
  case False
  have ME: "M \<subseteq> E" and fM: "forest M" and span: "\<forall>(x, y, z) \<in> E. connected M x y"
    and least: "\<forall>F'. spanning_forest E F' \<longrightarrow> weight M \<le> weight F'"
    using M by (auto simp: min_spanning_forest_def spanning_forest_def)
  have finM: "finite M" using ME fin by (rule finite_subset)
  have uv: "connected M u v" using span e by auto
  define C where "C = {(a, b, c). (a, b, c) \<in> M \<and> (a \<in> S \<longleftrightarrow> b \<notin> S)}"
  define M0 where "M0 = M - C"
  have CM: "C \<subseteq> M" by (auto simp: C_def)
  have finC: "finite C" using CM finM by (rule finite_subset)
  have M0C: "M0 \<union> C = M" using CM by (auto simp: M0_def)
  have "\<forall>(a, b, c) \<in> M0. a \<in> S \<longleftrightarrow> b \<in> S" by (auto simp: M0_def C_def)
  from connected_stays [OF this] cut have n0: "\<not> connected M0 u v" by blast
  from uv M0C have "connected (M0 \<union> C) u v" by simp
  from connecting_edge [OF finC n0 this] obtain d G where
    dC: "d \<in> C" and GM: "G \<subseteq> M0 \<union> C" and dG: "d \<notin> G" and nG: "\<not> connected G u v"
    and iG: "connected (insert d G) u v"
    by blast
  obtain a b c where d: "d = (a, b, c)" by (cases d)
  have dM: "(a, b, c) \<in> M" and dcross: "a \<in> S \<longleftrightarrow> b \<notin> S" using dC d by (auto simp: C_def)
  have wc: "w \<le> c" using light dM ME dcross by blast
  have dF: "(a, b, c) \<notin> F" using nocross dcross by blast
  let ?R = "M - {(a, b, c)}"
  have GR: "G \<subseteq> ?R" using GM dG M0C d by auto
  from iG nG have "(connected G u a \<and> connected G b v) \<or> (connected G u b \<and> connected G a v)"
    unfolding d connected_insert_iff by blast
  then have via: "(connected ?R u a \<and> connected ?R b v) \<or> (connected ?R u b \<and> connected ?R a v)"
    using connected_mono [OF GR] by blast
  have nab: "\<not> connected ?R a b" using fM dM by (auto simp: forest_def)
  have nR: "\<not> connected ?R u v"
  proof
    assume "connected ?R u v"
    with via have "connected ?R a b"
      using connected_sym connected_trans by blast
    with nab show False ..
  qed
  let ?M' = "insert (u, v, w) ?R"
  have fR: "forest ?R" using fM by (rule forest_subset) auto
  have fM': "forest ?M'" using fR nR by (rule forest_insert)
  have M'E: "?M' \<subseteq> E" using ME e by auto
  have RM': "?R \<subseteq> ?M'" by auto
  have e': "connected ?M' u v" by (rule connected_edge [of u v w]) simp
  from via have "(connected ?M' u a \<and> connected ?M' b v) \<or> (connected ?M' u b \<and> connected ?M' a v)"
    using connected_mono [OF RM'] by blast
  with e' have ab': "connected ?M' a b"
    using connected_sym connected_trans by blast
  have "\<forall>(x, y, z) \<in> M. connected ?M' x y"
  proof (clarify)
    fix x y z assume xyz: "(x, y, z) \<in> M"
    show "connected ?M' x y"
    proof (cases "(x, y, z) = (a, b, c)")
      case True
      with ab' show ?thesis by simp
    next
      case False
      with xyz have "(x, y, z) \<in> ?M'" by simp
      then show ?thesis by (rule connected_edge)
    qed
  qed
  then have "\<And>x y. connected M x y \<Longrightarrow> connected ?M' x y"
    by (rule connected_closure)
  with span have span': "\<forall>(x, y, z) \<in> E. connected ?M' x y" by blast
  have sf': "spanning_forest E ?M'"
    using M'E fM' span' by (simp add: spanning_forest_def)
  have finR: "finite ?R" using finM by simp
  have notinR: "(u, v, w) \<notin> ?R" using False by simp
  have "weight ?M' = w + weight ?R" using finR notinR by (rule weight_insert)
  moreover have "weight M = c + weight ?R" using finM dM by (rule weight_remove)
  ultimately have "weight ?M' \<le> weight M" using wc by simp
  with least have "\<forall>F'. spanning_forest E F' \<longrightarrow> weight ?M' \<le> weight F'"
    by (meson order_trans)
  with sf' have "min_spanning_forest E ?M'" by (simp add: min_spanning_forest_def)
  moreover have "insert (u, v, w) F \<subseteq> ?M'" using FM dF by auto
  ultimately show ?thesis by blast
qed

section \<open>Correctness of the loop of Kruskal\<close>

text \<open>The precondition of the algorithms: every edge joins two vertices of \<open>[1, N]\<close>.\<close>

definition valid_edges :: "int \<Rightarrow> edge list \<Rightarrow> bool" where
  "valid_edges N es \<longleftrightarrow> (\<forall>(u, v, w) \<in> set es. 1 \<le> u \<and> u \<le> N \<and> 1 \<le> v \<and> v \<le> N)"

text \<open>
  The invariant of the loop of \<^verbatim>\<open>run_kruskal\<close> when the edges \<open>pre\<close> have been processed:
  the edges chosen so far form a forest \<open>F\<close> that connects the ends of every processed edge
  and is part of a minimum spanning forest of the graph; the frame holds its weight and
  size, and the sets of the union-find structure are the components of \<open>F\<close>.
\<close>

definition kruskal_inv :: "int \<Rightarrow> edge set \<Rightarrow> edge list \<Rightarrow> kruskal_frame \<Rightarrow> bool" where
  "kruskal_inv N E pre fr \<longleftrightarrow>
     (\<exists>F. F \<subseteq> set pre \<and> forest F \<and> (\<forall>(a, b, c) \<in> set pre. connected F a b)
        \<and> (\<exists>M. min_spanning_forest E M \<and> F \<subseteq> M)
        \<and> k_mst_weight fr = weight F \<and> k_edges_count fr = int (card F)
        \<and> uf_inv (k_uf fr) \<and> length (parent (k_uf fr)) = nat (N + 1)
        \<and> (\<forall>a b. 0 \<le> a \<and> a \<le> N \<and> 0 \<le> b \<and> b \<le> N \<longrightarrow>
              (same_set (parent (k_uf fr)) a b \<longleftrightarrow> connected F a b)))"

lemma kruskal_step_inv:
  assumes finE: "finite E" and inv: "kruskal_inv N E pre fr"
    and e: "(u, v, w) \<in> E" and ur: "1 \<le> u" "u \<le> N" and vr: "1 \<le> v" "v \<le> N"
    and light: "\<forall>(a, b, c) \<in> E - set pre. w \<le> c"
  shows "\<exists>fr'. kruskal_step fr (u, v, w) = ok fr' \<and> kruskal_inv N E (pre @ [(u, v, w)]) fr'
           \<and> k_edges fr' = k_edges fr"
proof -
  from inv obtain F M where
    Fpre: "F \<subseteq> set pre" and fF: "forest F" and
    proc: "\<forall>(a, b, c) \<in> set pre. connected F a b" and
    M: "min_spanning_forest E M" and FM: "F \<subseteq> M" and
    wt: "k_mst_weight fr = weight F" and cnt: "k_edges_count fr = int (card F)" and
    uinv: "uf_inv (k_uf fr)" and len: "length (parent (k_uf fr)) = nat (N + 1)" and
    sets: "\<forall>a b. 0 \<le> a \<and> a \<le> N \<and> 0 \<le> b \<and> b \<le> N \<longrightarrow>
              (same_set (parent (k_uf fr)) a b \<longleftrightarrow> connected F a b)"
    unfolding kruskal_inv_def by blast
  have finF: "finite F" using Fpre by (rule finite_subset) simp
  have "0 \<le> u" "u < int (length (parent (k_uf fr)))" "0 \<le> v" "v < int (length (parent (k_uf fr)))"
    using ur vr len by auto
  from union_ok [OF uinv this] obtain uf' b where
    un: "union (k_uf fr) u v = ok (uf', b)" and uinv': "uf_inv uf'" and
    len': "length (parent uf') = length (parent (k_uf fr))" and
    b: "b \<longleftrightarrow> \<not> same_set (parent (k_uf fr)) u v" and
    ss: "\<forall>a c. same_set (parent uf') a c \<longleftrightarrow>
            same_set (parent (k_uf fr)) a c
            \<or> (same_set (parent (k_uf fr)) a u \<and> same_set (parent (k_uf fr)) v c)
            \<or> (same_set (parent (k_uf fr)) a v \<and> same_set (parent (k_uf fr)) u c)"
    by blast
  have b': "b \<longleftrightarrow> \<not> connected F u v" using b sets ur vr by simp
  have sets': "\<forall>a c. 0 \<le> a \<and> a \<le> N \<and> 0 \<le> c \<and> c \<le> N \<longrightarrow>
      (same_set (parent uf') a c \<longleftrightarrow> connected (insert (u, v, w) F) a c)"
    unfolding connected_insert_iff using ss sets ur vr by simp
  show ?thesis
  proof (cases "connected F u v")
    case True
    have same: "\<And>a c. connected (insert (u, v, w) F) a c \<longleftrightarrow> connected F a c"
      unfolding connected_insert_iff using True connected_sym connected_trans by blast
    let ?fr' = "fr\<lparr>k_uf := uf'\<rparr>"
    have step: "kruskal_step fr (u, v, w) = ok ?fr'"
      using un b' True by (simp add: kruskal_step_def)
    have "F \<subseteq> set (pre @ [(u, v, w)])" using Fpre by auto
    moreover have "\<forall>(a, b, c) \<in> set (pre @ [(u, v, w)]). connected F a b"
      using proc True by auto
    moreover have "\<forall>a c. 0 \<le> a \<and> a \<le> N \<and> 0 \<le> c \<and> c \<le> N \<longrightarrow>
        (same_set (parent uf') a c \<longleftrightarrow> connected F a c)"
      using sets' same by simp
    moreover have "\<exists>M. min_spanning_forest E M \<and> F \<subseteq> M" using M FM by blast
    ultimately have "kruskal_inv N E (pre @ [(u, v, w)]) ?fr'"
      unfolding kruskal_inv_def
      using fF wt cnt uinv' len len'
      by (intro exI [of _ F]) simp
    with step show ?thesis by simp
  next
    case False
    let ?F' = "insert (u, v, w) F"
    let ?fr' = "fr\<lparr>k_uf := uf', k_mst_weight := k_mst_weight fr + w,
                   k_edges_count := k_edges_count fr + 1\<rparr>"
    have step: "kruskal_step fr (u, v, w) = ok ?fr'"
      using un b' False by (simp add: kruskal_step_def)
    have notin: "(u, v, w) \<notin> F" using False connected_edge by blast
    have w': "weight ?F' = k_mst_weight fr + w"
      using weight_insert [OF finF notin] wt by simp
    have c': "int (card ?F') = k_edges_count fr + 1"
      using finF notin cnt by simp
    have f': "forest ?F'" using fF False by (rule forest_insert)
    have sub: "F \<subseteq> ?F'" by auto
    have proc': "\<forall>(a, b, c) \<in> set (pre @ [(u, v, w)]). connected ?F' a b"
      using proc connected_mono [OF sub] connected_edge [of u v w ?F'] by auto
    let ?S = "{x. connected F u x}"
    have cut: "u \<in> ?S \<longleftrightarrow> v \<notin> ?S" using False by simp
    have nocross: "\<forall>(a, b, c) \<in> F. a \<in> ?S \<longleftrightarrow> b \<in> ?S"
    proof (clarify)
      fix a b c assume "(a, b, c) \<in> F"
      then have "connected F a b" by (rule connected_edge)
      then show "a \<in> ?S \<longleftrightarrow> b \<in> ?S"
        using connected_trans connected_sym by blast
    qed
    have lightS: "\<forall>(a, b, c) \<in> E. (a \<in> ?S \<longleftrightarrow> b \<notin> ?S) \<longrightarrow> w \<le> c"
    proof (clarify)
      fix a b c assume abc: "(a, b, c) \<in> E" and cross: "a \<in> ?S \<longleftrightarrow> b \<notin> ?S"
      have "\<not> connected F a b"
        using cross connected_trans connected_sym by blast
      with proc have "(a, b, c) \<notin> set pre" by blast
      with abc light show "w \<le> c" by blast
    qed
    from cut_exchange [OF finE M FM e cut nocross lightS]
    have ex: "\<exists>M'. min_spanning_forest E M' \<and> ?F' \<subseteq> M'" .
    have "?F' \<subseteq> set (pre @ [(u, v, w)])" using Fpre by auto
    then have "kruskal_inv N E (pre @ [(u, v, w)]) ?fr'"
      unfolding kruskal_inv_def
      using f' proc' ex w' c' uinv' len len' sets'
      by (intro exI [of _ ?F']) simp
    with step show ?thesis by simp
  qed
qed


lemma kruskal_loop_inv:
  assumes "E = set (pre @ post)" and "sorted (map (\<lambda>(u, v, w). w) post)"
    and "valid_edges N post" and "kruskal_inv N E pre fr"
  shows "\<exists>fr'. kruskal_loop post fr = ok fr' \<and> kruskal_inv N E (pre @ post) fr'
           \<and> k_edges fr' = k_edges fr"
  using assms
proof (induction post arbitrary: pre fr)
  case Nil
  then show ?case by simp
next
  case (Cons e post)
  obtain u v w where e: "e = (u, v, w)" by (cases e)
  have finE: "finite E" using Cons.prems(1) by simp
  have eE: "(u, v, w) \<in> E" using Cons.prems(1) e by simp
  have rng: "1 \<le> u" "u \<le> N" "1 \<le> v" "v \<le> N"
    using Cons.prems(3) e by (auto simp: valid_edges_def)
  have "\<forall>x \<in> set post. w \<le> (\<lambda>(u, v, w). w) x" using Cons.prems(2) e by auto
  then have light: "\<forall>(a, b, c) \<in> E - set pre. w \<le> c"
    using Cons.prems(1) e by auto
  from kruskal_step_inv [OF finE Cons.prems(4) eE rng light] obtain fr1 where
    st: "kruskal_step fr (u, v, w) = ok fr1" and
    inv1: "kruskal_inv N E (pre @ [(u, v, w)]) fr1" and ed1: "k_edges fr1 = k_edges fr"
    by blast
  have E1: "E = set ((pre @ [(u, v, w)]) @ post)" using Cons.prems(1) e by simp
  have so: "sorted (map (\<lambda>(u, v, w). w) post)" using Cons.prems(2) by simp
  have va: "valid_edges N post" using Cons.prems(3) by (simp add: valid_edges_def)
  from Cons.IH [OF E1 so va inv1] obtain fr' where
    "kruskal_loop post fr1 = ok fr'" "kruskal_inv N E ((pre @ [(u, v, w)]) @ post) fr'"
    "k_edges fr' = k_edges fr1"
    by blast
  then show ?case using st ed1 e by simp
qed

lemma kruskal_inv_init:
  assumes "finite E"
  shows "kruskal_inv N E [] \<lparr>k_edges = es, k_uf = UnionFind N, k_mst_weight = 0, k_edges_count = 0\<rparr>"
  unfolding kruskal_inv_def
  using min_spanning_forest_exists [OF assms]
  by (intro exI [of _ "{}"])
     (simp add: weight_def UnionFind_inv UnionFind_length UnionFind_same_set)

lemma kruskal_loop_from_init:
  assumes "sorted (map (\<lambda>(u, v, w). w) xs)" and "valid_edges N xs"
  shows "\<exists>fr'. kruskal_loop xs \<lparr>k_edges = es, k_uf = UnionFind N, k_mst_weight = 0, k_edges_count = 0\<rparr> = ok fr'
           \<and> kruskal_inv N (set xs) xs fr' \<and> k_edges fr' = es"
proof -
  have "set xs = set ([] @ xs)" by simp
  from kruskal_loop_inv [OF this assms kruskal_inv_init] show ?thesis by simp
qed

lemma kruskal_inv_final:
  assumes "kruskal_inv N (set xs) xs fr"
  shows "\<exists>F. min_spanning_forest (set xs) F \<and> k_mst_weight fr = weight F
           \<and> k_edges_count fr = int (card F)"
proof -
  from assms obtain F M where
    proc: "\<forall>(a, b, c) \<in> set xs. connected F a b" and
    M: "min_spanning_forest (set xs) M" and FM: "F \<subseteq> M" and
    wt: "k_mst_weight fr = weight F" and cnt: "k_edges_count fr = int (card F)"
    unfolding kruskal_inv_def by blast
  have "forest M" "M \<subseteq> set xs" using M by (auto simp: min_spanning_forest_def spanning_forest_def)
  then have "F = M" using FM proc by (intro forest_maximal) auto
  with M wt cnt show ?thesis by blast
qed

lemma valid_edges_sort: "valid_edges N (sort_key f es) \<longleftrightarrow> valid_edges N es"
  by (simp add: valid_edges_def)

lemma run_kruskal_correct:
  assumes "valid_edges N es"
  shows "\<exists>fr F. run_kruskal_frame N es = ok fr \<and> k_edges fr = es
           \<and> min_spanning_forest (set es) F \<and> k_mst_weight fr = weight F
           \<and> k_edges_count fr = int (card F)"
proof -
  let ?xs = "sort_key (\<lambda>(u, v, w). w) es"
  have so: "sorted (map (\<lambda>(u, v, w). w) ?xs)" by simp
  have va: "valid_edges N ?xs" using assms by (simp add: valid_edges_sort)
  from kruskal_loop_from_init [OF so va, of es] obtain fr where
    lp: "kruskal_loop ?xs \<lparr>k_edges = es, k_uf = UnionFind N, k_mst_weight = 0, k_edges_count = 0\<rparr> = ok fr"
    and inv: "kruskal_inv N (set ?xs) ?xs fr" and ed: "k_edges fr = es"
    by blast
  from kruskal_inv_final [OF inv] obtain F where
    "min_spanning_forest (set es) F" "k_mst_weight fr = weight F" "k_edges_count fr = int (card F)"
    by auto
  moreover have "run_kruskal_frame N es = ok fr"
    using lp by (simp add: run_kruskal_frame_def)
  ultimately show ?thesis using ed by blast
qed

section \<open>Subscripts, frames and the adjacency structure\<close>

lemma uf_inv_entries:
  assumes "uf_inv uf" and "p \<in> set (parent uf)"
  shows "0 \<le> p \<and> p < int (length (parent uf))"
proof -
  from assms(2) obtain i where i: "i < length (parent uf)" "p = parent uf ! i"
    by (auto simp: in_set_conv_nth)
  then have "0 \<le> int i \<and> int i < int (length (parent uf))" by simp
  with assms(1) obtain r where "root_of (parent uf) (int i) r" unfolding uf_inv_def by blast
  then show ?thesis
  proof (cases rule: root_of.cases)
    case root
    with i show ?thesis by simp
  next
    case step
    from root_of_range [OF step(4)] i show ?thesis by simp
  qed
qed

lemma sorted_prefix:
  assumes "sort_key f es = pre @ post"
  shows "sorted (map f pre)"
proof -
  have "sorted (map f (pre @ post))" using assms [symmetric] by simp
  then show ?thesis by (simp add: sorted_append)
qed

lemma bindr_eq_ok: "bindr m f = ok v \<longleftrightarrow> (\<exists>a. m = ok a \<and> f a = ok v)"
  by (auto simp: bindr_def ok_def split: option.splits sum.splits)

lemma kruskal_step_edges: "kruskal_step fr e = ok fr' \<Longrightarrow> k_edges fr' = k_edges fr"
  by (auto simp: kruskal_step_def bindr_eq_ok split: prod.splits if_splits)

lemma kruskal_loop_edges: "kruskal_loop xs fr = ok fr' \<Longrightarrow> k_edges fr' = k_edges fr"
proof (induction xs arbitrary: fr)
  case Nil
  then show ?case by simp
next
  case (Cons e xs)
  from Cons.prems obtain fr1 where "kruskal_step fr e = ok fr1" "kruskal_loop xs fr1 = ok fr'"
    by (auto simp: bindr_eq_ok)
  with Cons.IH kruskal_step_edges show ?case by metis
qed

text \<open>The list that the subscript \<^verbatim>\<open>adj[u]\<close> evaluates to.\<close>

definition neighbors :: "adjacency \<Rightarrow> int \<Rightarrow> (int \<times> int) list" where
  "neighbors a u = (case a u of None \<Rightarrow> [] | Some l \<Rightarrow> l)"

lemma dd_get_snd: "snd (dd_get a u) = neighbors a u"
  by (simp add: dd_get_def neighbors_def split: option.splits)

lemma dd_get_neighbors: "neighbors (fst (dd_get a u)) x = neighbors a x"
  by (simp add: dd_get_def neighbors_def split: option.splits)

lemma dd_get_keeps: "a x = Some l \<Longrightarrow> fst (dd_get a u) x = Some l"
  by (auto simp: dd_get_def split: option.splits)

text \<open>One iteration of the \<^verbatim>\<open>while\<close> loop of \<^verbatim>\<open>run_prim\<close>, for a frame on which the loop
  condition holds.\<close>

definition prim_step :: "prim_frame \<Rightarrow> prim_frame" where
  "prim_step fr =
     (case heappop (p_pq fr) of ((w, u), pq1) \<Rightarrow>
        if u |\<in>| p_visited fr then fr\<lparr>p_pq := pq1\<rparr>
        else \<lparr> p_adj = fst (dd_get (p_adj fr) u),
               p_pq = push_neighbors (finsert u (p_visited fr)) (snd (dd_get (p_adj fr) u)) pq1,
               p_visited = finsert u (p_visited fr),
               p_mst_weight = p_mst_weight fr + w \<rparr>)"

lemma prim_loop_unfold:
  "prim_loop N fr =
     (if p_pq fr \<noteq> [] \<and> int (fcard (p_visited fr)) < N then prim_loop N (prim_step fr) else fr)"
  by (subst prim_loop.simps)
     (simp add: prim_step_def Let_def split: prod.splits)

lemma prim_loop_induct [consumes 0, case_names stop step]:
  assumes stop: "\<And>fr. \<not> (p_pq fr \<noteq> [] \<and> int (fcard (p_visited fr)) < N) \<Longrightarrow> P fr fr"
    and step: "\<And>fr. p_pq fr \<noteq> [] \<Longrightarrow> int (fcard (p_visited fr)) < N \<Longrightarrow>
                 P (prim_step fr) (prim_loop N (prim_step fr)) \<Longrightarrow> P fr (prim_loop N (prim_step fr))"
  shows "P fr (prim_loop N fr)"
proof -
  have "n = N \<Longrightarrow> P fr (prim_loop N fr)" for n
  proof (induction n fr rule: prim_loop.induct)
    case (1 n fr)
    note nN = "1.prems"
    show ?case
    proof (cases "p_pq fr \<noteq> [] \<and> int (fcard (p_visited fr)) < N")
      case False
      then have "prim_loop N fr = fr" by (subst prim_loop_unfold) (rule if_not_P)
      with stop [OF False] show ?thesis by simp
    next
      case True
      then have cond: "p_pq fr \<noteq> [] \<and> int (fcard (p_visited fr)) < n" using nN by simp
      obtain w u pq1 where hp: "heappop (p_pq fr) = ((w, u), pq1)"
        by (metis surj_pair)
      have "P (prim_step fr) (prim_loop N (prim_step fr))"
      proof (cases "u |\<in>| p_visited fr")
        case vis: True
        have "prim_step fr = fr\<lparr>p_pq := pq1\<rparr>" using hp vis by (simp add: prim_step_def)
        with "1.IH"(1) [OF cond hp [symmetric] refl vis nN] show ?thesis by simp
      next
        case nvis: False
        obtain a1 nb where dg: "dd_get (p_adj fr) u = (a1, nb)" by (cases "dd_get (p_adj fr) u")
        have "prim_step fr = \<lparr> p_adj = a1, p_pq = push_neighbors (finsert u (p_visited fr)) nb pq1,
                 p_visited = finsert u (p_visited fr), p_mst_weight = p_mst_weight fr + w \<rparr>"
          using hp nvis dg by (simp add: prim_step_def)
        with "1.IH"(2) [OF cond hp [symmetric] refl nvis refl refl refl dg [symmetric] refl nN]
        show ?thesis by simp
      qed
      moreover have "prim_loop N fr = prim_loop N (prim_step fr)"
        using True by (subst prim_loop_unfold) (rule if_P)
      ultimately show ?thesis using step True by simp
    qed
  qed
  then show ?thesis by simp
qed

lemma prim_step_adj:
  "neighbors (p_adj (prim_step fr)) x = neighbors (p_adj fr) x"
  "p_adj fr x = Some l \<Longrightarrow> p_adj (prim_step fr) x = Some l"
  by (auto simp: prim_step_def dd_get_neighbors dd_get_keeps split: prod.splits)

lemma prim_loop_adj:
  "(\<forall>x. neighbors (p_adj (prim_loop N fr)) x = neighbors (p_adj fr) x) \<and>
   (\<forall>x l. p_adj fr x = Some l \<longrightarrow> p_adj (prim_loop N fr) x = Some l)"
proof (induction rule: prim_loop_induct)
  case (stop fr)
  show ?case by simp
next
  case (step fr)
  then show ?case by (simp add: prim_step_adj)
qed

lemma run_prim_frame_single:
  "run_prim_frame 1 Map.empty = \<lparr>p_adj = [1 \<mapsto> []], p_pq = [], p_visited = {|1|}, p_mst_weight = 0\<rparr>"
proof -
  have "prim_loop 1 \<lparr>p_adj = Map.empty, p_pq = [(0, 1)], p_visited = {||}, p_mst_weight = 0\<rparr> =
        prim_loop 1 \<lparr>p_adj = [1 \<mapsto> []], p_pq = [], p_visited = {|1|}, p_mst_weight = 0\<rparr>"
    by (subst prim_loop.simps) (simp add: heappop_def dd_get_def push_neighbors_def fcard_fempty)
  also have "\<dots> = \<lparr>p_adj = [1 \<mapsto> []], p_pq = [], p_visited = {|1|}, p_mst_weight = 0\<rparr>"
    by (subst prim_loop.simps) simp
  finally show ?thesis by (simp add: run_prim_frame_def)
qed

section \<open>Correctness of the loop of Prim\<close>

lemma push_neighbors_set:
  "set (push_neighbors vis nbrs q) = set q \<union> {(w, x). (w, x) \<in> set nbrs \<and> x |\<notin>| vis}"
  unfolding push_neighbors_def
  by (induction nbrs arbitrary: q) (auto simp: heappush_def set_insort_key split: if_splits)

lemma push_neighbors_sorted: "sorted q \<Longrightarrow> sorted (push_neighbors vis nbrs q)"
  unfolding push_neighbors_def
  by (induction nbrs arbitrary: q) (auto simp: heappush_def sorted_insort)

text \<open>The adjacency structure of a graph: under each vertex, the pairs \<open>(w, v)\<close> of the edges
  that join it to \<open>v\<close> with weight \<open>w\<close>, in either direction of the edge list.\<close>

definition adjacency_of :: "edge set \<Rightarrow> adjacency \<Rightarrow> bool" where
  "adjacency_of E a \<longleftrightarrow>
     (\<forall>u. set (neighbors a u) = {(w, v). (u, v, w) \<in> E \<or> (v, u, w) \<in> E})"

lemma neighbors_dd_append:
  "neighbors (dd_append a u x) y = (if y = u then neighbors a u @ [x] else neighbors a y)"
  by (auto simp: dd_append_def dd_get_def neighbors_def split: option.splits)

lemma build_adj_fold:
  "set (neighbors (fold (\<lambda>(u, v, w) adj. dd_append (dd_append adj u (w, v)) v (w, u)) es a) y) =
     set (neighbors a y) \<union> {(w, v). (y, v, w) \<in> set es \<or> (v, y, w) \<in> set es}"
proof (induction es arbitrary: a)
  case Nil
  show ?case by simp
next
  case (Cons e es)
  obtain u v w where e: "e = (u, v, w)" by (cases e)
  show ?case unfolding e
    by (simp add: Cons.IH neighbors_dd_append) auto
qed

lemma build_adj_adjacency: "adjacency_of (set es) (build_adj es)"
  unfolding adjacency_of_def build_adj_def build_adj_fold
  by (simp add: neighbors_def)


text \<open>The edges of the connected component of the vertex \<open>r\<close>.\<close>

definition comp_edges :: "edge set \<Rightarrow> int \<Rightarrow> edge set" where
  "comp_edges E r = {(u, v, w). (u, v, w) \<in> E \<and> connected E r u}"

text \<open>
  The invariant of the loop of \<^verbatim>\<open>run_prim\<close> once vertex 1 has been visited: the visited
  vertices are joined to vertex 1 by a set of edges \<open>F\<close> between visited vertices that is
  part of a minimum spanning forest of the component of vertex 1; \<^verbatim>\<open>mst_weight\<close> is the
  weight of \<open>F\<close>; every item of the queue comes from an edge at a visited vertex, and every
  edge from a visited vertex to an unvisited one has its item in the queue.
\<close>

definition prim_inv :: "int \<Rightarrow> edge set \<Rightarrow> prim_frame \<Rightarrow> bool" where
  "prim_inv N E fr \<longleftrightarrow>
     (\<exists>F. (\<exists>M. min_spanning_forest (comp_edges E 1) M \<and> F \<subseteq> M)
        \<and> 1 |\<in>| p_visited fr
        \<and> (\<forall>x. x |\<in>| p_visited fr \<longrightarrow> connected F 1 x \<and> 1 \<le> x \<and> x \<le> N)
        \<and> (\<forall>(u, v, w) \<in> F. u |\<in>| p_visited fr \<and> v |\<in>| p_visited fr)
        \<and> p_mst_weight fr = weight F
        \<and> sorted (p_pq fr)
        \<and> (\<forall>(w, v) \<in> set (p_pq fr). \<exists>u. u |\<in>| p_visited fr \<and> ((u, v, w) \<in> E \<or> (v, u, w) \<in> E))
        \<and> (\<forall>u v w. u |\<in>| p_visited fr \<and> v |\<notin>| p_visited fr \<and> ((u, v, w) \<in> E \<or> (v, u, w) \<in> E)
              \<longrightarrow> (w, v) \<in> set (p_pq fr))
        \<and> adjacency_of E (p_adj fr))"

lemma comp_edges_subset: "comp_edges E r \<subseteq> E"
  by (auto simp: comp_edges_def)

lemma adjacency_of_dd_get: "adjacency_of E a \<Longrightarrow> adjacency_of E (fst (dd_get a u))"
  by (simp add: adjacency_of_def dd_get_neighbors)

lemma prim_step_skip:
  assumes inv: "prim_inv N E fr" and pq: "p_pq fr = (w, v) # pq1" and vis: "v |\<in>| p_visited fr"
  shows "prim_inv N E (prim_step fr)"
proof -
  have st: "prim_step fr = fr\<lparr>p_pq := pq1\<rparr>"
    using pq vis by (simp add: prim_step_def heappop_def)
  from inv obtain F where
    M: "\<exists>M. min_spanning_forest (comp_edges E 1) M \<and> F \<subseteq> M" and
    one: "1 |\<in>| p_visited fr" and
    con: "\<forall>x. x |\<in>| p_visited fr \<longrightarrow> connected F 1 x \<and> 1 \<le> x \<and> x \<le> N" and
    ins: "\<forall>(u, v, w) \<in> F. u |\<in>| p_visited fr \<and> v |\<in>| p_visited fr" and
    wt: "p_mst_weight fr = weight F" and
    so: "sorted (p_pq fr)" and
    sound: "\<forall>(w, v) \<in> set (p_pq fr). \<exists>u. u |\<in>| p_visited fr \<and> ((u, v, w) \<in> E \<or> (v, u, w) \<in> E)" and
    compl: "\<forall>u v w. u |\<in>| p_visited fr \<and> v |\<notin>| p_visited fr \<and> ((u, v, w) \<in> E \<or> (v, u, w) \<in> E)
              \<longrightarrow> (w, v) \<in> set (p_pq fr)" and
    adj: "adjacency_of E (p_adj fr)"
    unfolding prim_inv_def by blast
  have so1: "sorted pq1" using so pq by simp
  have sound1: "\<forall>(w, v) \<in> set pq1. \<exists>u. u |\<in>| p_visited fr \<and> ((u, v, w) \<in> E \<or> (v, u, w) \<in> E)"
    using sound pq by simp
  have compl1: "\<forall>u x c. u |\<in>| p_visited fr \<and> x |\<notin>| p_visited fr \<and> ((u, x, c) \<in> E \<or> (x, u, c) \<in> E)
              \<longrightarrow> (c, x) \<in> set pq1"
  proof (intro allI impI)
    fix u x c
    assume a: "u |\<in>| p_visited fr \<and> x |\<notin>| p_visited fr \<and> ((u, x, c) \<in> E \<or> (x, u, c) \<in> E)"
    with compl have "(c, x) \<in> set (p_pq fr)" by blast
    moreover from a vis have "x \<noteq> v" by blast
    ultimately show "(c, x) \<in> set pq1" using pq by simp
  qed
  show ?thesis
    unfolding prim_inv_def st
    using M one con ins wt so1 sound1 compl1 adj
    by (intro exI [of _ F]) simp
qed


lemma prim_step_visit:
  assumes finE: "finite E"
    and valid: "\<forall>(u, v, w) \<in> E. 1 \<le> u \<and> u \<le> N \<and> 1 \<le> v \<and> v \<le> N"
    and inv: "prim_inv N E fr" and pq: "p_pq fr = (w, v) # pq1" and nvis: "v |\<notin>| p_visited fr"
  shows "prim_inv N E (prim_step fr)"
proof -
  let ?vis = "p_visited fr"
  let ?vis' = "finsert v ?vis"
  let ?S = "fset ?vis"
  let ?E1 = "comp_edges E 1"
  let ?pq' = "push_neighbors ?vis' (neighbors (p_adj fr) v) pq1"
  have st: "prim_step fr = \<lparr> p_adj = fst (dd_get (p_adj fr) v), p_pq = ?pq',
               p_visited = ?vis', p_mst_weight = p_mst_weight fr + w \<rparr>"
    using pq nvis by (simp add: prim_step_def heappop_def dd_get_snd)
  from inv obtain F M where
    M: "min_spanning_forest ?E1 M" and FM: "F \<subseteq> M" and
    one: "1 |\<in>| ?vis" and
    con: "\<forall>x. x |\<in>| ?vis \<longrightarrow> connected F 1 x \<and> 1 \<le> x \<and> x \<le> N" and
    ins: "\<forall>(u, v, w) \<in> F. u |\<in>| ?vis \<and> v |\<in>| ?vis" and
    wt: "p_mst_weight fr = weight F" and
    so: "sorted (p_pq fr)" and
    sound: "\<forall>(w, v) \<in> set (p_pq fr). \<exists>u. u |\<in>| ?vis \<and> ((u, v, w) \<in> E \<or> (v, u, w) \<in> E)" and
    compl: "\<forall>u v w. u |\<in>| ?vis \<and> v |\<notin>| ?vis \<and> ((u, v, w) \<in> E \<or> (v, u, w) \<in> E)
              \<longrightarrow> (w, v) \<in> set (p_pq fr)" and
    adj: "adjacency_of E (p_adj fr)"
    unfolding prim_inv_def by blast
  have ME1: "M \<subseteq> ?E1" using M by (simp add: min_spanning_forest_def spanning_forest_def)
  have FE: "F \<subseteq> E" using FM ME1 comp_edges_subset by blast
  have finE1: "finite ?E1" using comp_edges_subset finE by (rule finite_subset)
  have finF: "finite F" using FE finE by (rule finite_subset)
  have so1: "sorted pq1" and least: "\<forall>x \<in> set pq1. (w, v) \<le> x" using so pq by auto
  from sound pq obtain u where u: "u |\<in>| ?vis" and uv: "(u, v, w) \<in> E \<or> (v, u, w) \<in> E"
    by auto
  have cu: "connected F 1 u" using con u by blast
  have cEu: "connected E 1 u" using connected_mono [OF FE cu] .
  have cuv: "connected E u v" using uv connected_edge connected_sym by blast
  have cEv: "connected E 1 v" using cEu cuv by (rule connected_trans)
  have vr: "1 \<le> v \<and> v \<le> N" using uv valid by blast
  have lightw: "\<And>a b c. (a, b, c) \<in> E \<Longrightarrow> (a |\<in>| ?vis \<longleftrightarrow> b |\<notin>| ?vis) \<Longrightarrow> w \<le> c"
  proof -
    fix a b c assume abc: "(a, b, c) \<in> E" and cross: "a |\<in>| ?vis \<longleftrightarrow> b |\<notin>| ?vis"
    have "(c, b) \<in> set (p_pq fr) \<or> (c, a) \<in> set (p_pq fr)"
    proof (cases "a |\<in>| ?vis")
      case True
      with cross abc compl show ?thesis by blast
    next
      case False
      with cross abc compl show ?thesis by blast
    qed
    then have "(w, v) \<le> (c, b) \<or> (w, v) \<le> (c, a)" using pq least by auto
    then show "w \<le> c" by auto
  qed
  have main: "\<And>x y. (x, y, w) \<in> E \<Longrightarrow> (x = u \<and> y = v) \<or> (x = v \<and> y = u) \<Longrightarrow>
      prim_inv N E (prim_step fr)"
  proof -
    fix x y assume e: "(x, y, w) \<in> E" and xy: "(x = u \<and> y = v) \<or> (x = v \<and> y = u)"
    let ?F' = "insert (x, y, w) F"
    have eE1: "(x, y, w) \<in> ?E1" using e xy cEu cEv by (auto simp: comp_edges_def)
    have cut: "x \<in> ?S \<longleftrightarrow> y \<notin> ?S" using xy u nvis by auto
    have nocross: "\<forall>(a, b, c) \<in> F. a \<in> ?S \<longleftrightarrow> b \<in> ?S" using ins by auto
    have light: "\<forall>(a, b, c) \<in> ?E1. (a \<in> ?S \<longleftrightarrow> b \<notin> ?S) \<longrightarrow> w \<le> c"
      using lightw comp_edges_subset by blast
    from cut_exchange [OF finE1 M FM eE1 cut nocross light]
    have ex: "\<exists>M'. min_spanning_forest ?E1 M' \<and> ?F' \<subseteq> M'" .
    have notin: "(x, y, w) \<notin> F" using ins xy nvis by auto
    have w': "weight ?F' = p_mst_weight fr + w"
      using weight_insert [OF finF notin] wt by simp
    have sub: "F \<subseteq> ?F'" by auto
    have exy: "connected ?F' x y" by (rule connected_edge [of x y w]) simp
    have "connected ?F' u v" using exy xy connected_sym by blast
    moreover have "connected ?F' 1 u" using connected_mono [OF sub cu] .
    ultimately have cv: "connected ?F' 1 v" using connected_trans by blast
    have con': "\<forall>z. z |\<in>| ?vis' \<longrightarrow> connected ?F' 1 z \<and> 1 \<le> z \<and> z \<le> N"
      using con connected_mono [OF sub] cv vr by auto
    have ins': "\<forall>(a, b, c) \<in> ?F'. a |\<in>| ?vis' \<and> b |\<in>| ?vis'"
      using ins xy u by auto
    have one': "1 |\<in>| ?vis'" using one by simp
    have so': "sorted ?pq'" using so1 by (rule push_neighbors_sorted)
    have nb: "set (neighbors (p_adj fr) v) = {(c, z). (v, z, c) \<in> E \<or> (z, v, c) \<in> E}"
      using adj by (simp add: adjacency_of_def)
    have setpq: "set ?pq' = set pq1 \<union> {(c, z). ((v, z, c) \<in> E \<or> (z, v, c) \<in> E) \<and> z |\<notin>| ?vis'}"
      unfolding push_neighbors_set nb by auto
    have sound': "\<forall>(c, z) \<in> set ?pq'. \<exists>a. a |\<in>| ?vis' \<and> ((a, z, c) \<in> E \<or> (z, a, c) \<in> E)"
    proof (clarify)
      fix c z assume "(c, z) \<in> set ?pq'"
      then consider "(c, z) \<in> set pq1" | "(v, z, c) \<in> E \<or> (z, v, c) \<in> E"
        unfolding setpq by blast
      then show "\<exists>a. a |\<in>| ?vis' \<and> ((a, z, c) \<in> E \<or> (z, a, c) \<in> E)"
      proof cases
        case 1
        with sound pq obtain a where "a |\<in>| ?vis" "(a, z, c) \<in> E \<or> (z, a, c) \<in> E" by auto
        then show ?thesis by (intro exI [of _ a]) simp
      next
        case 2
        then show ?thesis by (intro exI [of _ v]) simp
      qed
    qed
    have compl': "\<forall>a z c. a |\<in>| ?vis' \<and> z |\<notin>| ?vis' \<and> ((a, z, c) \<in> E \<or> (z, a, c) \<in> E)
              \<longrightarrow> (c, z) \<in> set ?pq'"
    proof (intro allI impI)
      fix a z c
      assume h: "a |\<in>| ?vis' \<and> z |\<notin>| ?vis' \<and> ((a, z, c) \<in> E \<or> (z, a, c) \<in> E)"
      show "(c, z) \<in> set ?pq'"
      proof (cases "a = v")
        case True
        with h show ?thesis unfolding setpq by blast
      next
        case False
        with h have "a |\<in>| ?vis" "z |\<notin>| ?vis" "z \<noteq> v" by auto
        with h compl have "(c, z) \<in> set (p_pq fr)" by blast
        with \<open>z \<noteq> v\<close> pq have "(c, z) \<in> set pq1" by simp
        then show ?thesis unfolding setpq by blast
      qed
    qed
    have adj': "adjacency_of E (fst (dd_get (p_adj fr) v))"
      using adj by (rule adjacency_of_dd_get)
    show "prim_inv N E (prim_step fr)"
      unfolding prim_inv_def st
      using ex one' con' ins' w' so' sound' compl' adj'
      by (intro exI [of _ ?F']) simp
  qed
  from uv show ?thesis
  proof
    assume "(u, v, w) \<in> E"
    then show ?thesis by (rule main) simp
  next
    assume "(v, u, w) \<in> E"
    then show ?thesis by (rule main) simp
  qed
qed


lemma prim_step_inv:
  assumes "finite E"
    and "\<forall>(u, v, w) \<in> E. 1 \<le> u \<and> u \<le> N \<and> 1 \<le> v \<and> v \<le> N"
    and "prim_inv N E fr" and "p_pq fr \<noteq> []"
  shows "prim_inv N E (prim_step fr)"
proof -
  from assms(4) obtain w v pq1 where pq: "p_pq fr = (w, v) # pq1"
    by (cases "p_pq fr") auto
  show ?thesis
  proof (cases "v |\<in>| p_visited fr")
    case True
    with assms(3) pq show ?thesis by (rule prim_step_skip)
  next
    case False
    with assms(1,2,3) pq show ?thesis by (rule prim_step_visit)
  qed
qed

lemma prim_loop_inv:
  assumes finE: "finite E"
    and valid: "\<forall>(u, v, w) \<in> E. 1 \<le> u \<and> u \<le> N \<and> 1 \<le> v \<and> v \<le> N"
  shows "prim_inv N E fr \<longrightarrow>
           prim_inv N E (prim_loop N fr) \<and>
           \<not> (p_pq (prim_loop N fr) \<noteq> [] \<and> int (fcard (p_visited (prim_loop N fr))) < N)"
proof (induction rule: prim_loop_induct)
  case (stop fr)
  then show ?case by simp
next
  case (step fr)
  then show ?case using prim_step_inv [OF finE valid] by blast
qed

lemma comp_range:
  assumes valid: "\<forall>(u, v, w) \<in> E. 1 \<le> u \<and> u \<le> N \<and> 1 \<le> v \<and> v \<le> N"
    and N: "1 \<le> N" and c: "connected E 1 x"
  shows "1 \<le> x \<and> x \<le> N"
proof -
  have "\<forall>(u, v, w) \<in> E. u \<in> {1..N} \<longleftrightarrow> v \<in> {1..N}" using valid by auto
  from connected_stays [OF this c] N show ?thesis by simp
qed

lemma prim_inv_final:
  assumes valid: "\<forall>(u, v, w) \<in> E. 1 \<le> u \<and> u \<le> N \<and> 1 \<le> v \<and> v \<le> N"
    and N: "1 \<le> N"
    and inv: "prim_inv N E fr"
    and exit: "\<not> (p_pq fr \<noteq> [] \<and> int (fcard (p_visited fr)) < N)"
  shows "fset (p_visited fr) = {x. connected E 1 x} \<and>
         (\<exists>T. min_spanning_forest (comp_edges E 1) T \<and> p_mst_weight fr = weight T)"
proof -
  let ?S = "fset (p_visited fr)"
  from inv obtain F M where
    M: "min_spanning_forest (comp_edges E 1) M" and FM: "F \<subseteq> M" and
    one: "1 |\<in>| p_visited fr" and
    con: "\<forall>x. x |\<in>| p_visited fr \<longrightarrow> connected F 1 x \<and> 1 \<le> x \<and> x \<le> N" and
    wt: "p_mst_weight fr = weight F" and
    compl: "\<forall>u v w. u |\<in>| p_visited fr \<and> v |\<notin>| p_visited fr \<and> ((u, v, w) \<in> E \<or> (v, u, w) \<in> E)
              \<longrightarrow> (w, v) \<in> set (p_pq fr)"
    unfolding prim_inv_def by blast
  have ME1: "M \<subseteq> comp_edges E 1" and fM: "forest M"
    using M by (auto simp: min_spanning_forest_def spanning_forest_def)
  have FE: "F \<subseteq> E" using FM ME1 comp_edges_subset by blast
  have sub1: "?S \<subseteq> {x. connected E 1 x}"
    using con connected_mono [OF FE] by auto
  have sub2: "{x. connected E 1 x} \<subseteq> ?S"
  proof (cases "p_pq fr = []")
    case True
    have "\<forall>(a, b, c) \<in> E. a \<in> ?S \<longleftrightarrow> b \<in> ?S"
    proof (clarify)
      fix a b c assume abc: "(a, b, c) \<in> E"
      show "a \<in> ?S \<longleftrightarrow> b \<in> ?S"
      proof (rule ccontr)
        assume "\<not> (a \<in> ?S \<longleftrightarrow> b \<in> ?S)"
        then have "(a |\<in>| p_visited fr \<and> b |\<notin>| p_visited fr) \<or> (b |\<in>| p_visited fr \<and> a |\<notin>| p_visited fr)"
          by auto
        with abc compl have "(c, b) \<in> set (p_pq fr) \<or> (c, a) \<in> set (p_pq fr)" by blast
        with True show False by simp
      qed
    qed
    from connected_stays [OF this] one show ?thesis by auto
  next
    case False
    with exit have big: "N \<le> int (fcard (p_visited fr))" by simp
    have SN: "?S \<subseteq> {1..N}" using con by auto
    have "card {1..N} \<le> card ?S" using big N by (simp add: fcard.rep_eq)
    with SN have "?S = {1..N}" by (intro card_seteq) simp_all
    with comp_range [OF valid N] show ?thesis by auto
  qed
  have S: "?S = {x. connected E 1 x}" using sub1 sub2 by blast
  have "\<forall>(u, v, w) \<in> M. connected F u v"
  proof (clarify)
    fix u v w assume m: "(u, v, w) \<in> M"
    with ME1 have e: "(u, v, w) \<in> E" and cu: "connected E 1 u" by (auto simp: comp_edges_def)
    from e have "connected E u v" by (rule connected_edge)
    with cu have cv: "connected E 1 v" by (rule connected_trans)
    from cu cv S have "u |\<in>| p_visited fr" "v |\<in>| p_visited fr" by auto
    with con have "connected F 1 u" "connected F 1 v" by auto
    then show "connected F u v" using connected_sym connected_trans by blast
  qed
  with fM FM have "F = M" by (rule forest_maximal)
  with M wt S show ?thesis by blast
qed

lemma prim_first_step:
  assumes finE: "finite E" and N: "1 \<le> N" and adj: "adjacency_of E a"
  shows "prim_inv N E (prim_step \<lparr>p_adj = a, p_pq = [(0, 1)], p_visited = {||}, p_mst_weight = 0\<rparr>)"
proof -
  let ?pq = "push_neighbors {|1|} (neighbors a 1) []"
  have st: "prim_step \<lparr>p_adj = a, p_pq = [(0, 1)], p_visited = {||}, p_mst_weight = 0\<rparr> =
      \<lparr>p_adj = fst (dd_get a 1), p_pq = ?pq, p_visited = {|1|}, p_mst_weight = 0\<rparr>"
    by (simp add: prim_step_def heappop_def dd_get_snd)
  have "finite (comp_edges E 1)" using comp_edges_subset finE by (rule finite_subset)
  then have ex: "\<exists>M. min_spanning_forest (comp_edges E 1) M \<and> {} \<subseteq> M"
    using min_spanning_forest_exists by simp
  have nb: "set (neighbors a 1) = {(c, z). (1, z, c) \<in> E \<or> (z, 1, c) \<in> E}"
    using adj by (simp add: adjacency_of_def)
  have setpq: "set ?pq = {(c, z). ((1, z, c) \<in> E \<or> (z, 1, c) \<in> E) \<and> z \<noteq> 1}"
    unfolding push_neighbors_set nb by auto
  have so: "sorted ?pq" by (rule push_neighbors_sorted) simp
  have sound: "\<forall>(c, z) \<in> set ?pq. \<exists>u. u |\<in>| {|1|} \<and> ((u, z, c) \<in> E \<or> (z, u, c) \<in> E)"
    unfolding setpq by auto
  have compl: "\<forall>u z c. u |\<in>| {|1|} \<and> z |\<notin>| {|1|} \<and> ((u, z, c) \<in> E \<or> (z, u, c) \<in> E)
              \<longrightarrow> (c, z) \<in> set ?pq"
    unfolding setpq by auto
  have adj': "adjacency_of E (fst (dd_get a 1))" using adj by (rule adjacency_of_dd_get)
  show ?thesis
    unfolding prim_inv_def st
    using ex N so sound compl adj'
    by (intro exI [of _ "{}"]) (simp add: weight_def)
qed

lemma run_prim_correct:
  assumes valid: "valid_edges N es" and N: "1 \<le> N" and adj: "adjacency_of (set es) a"
  shows "\<exists>T. min_spanning_forest (comp_edges (set es) 1) T \<and> run_prim N a = weight T
           \<and> fset (p_visited (run_prim_frame N a)) = {x. connected (set es) 1 x}
           \<and> (p_pq (run_prim_frame N a) = [] \<or> N \<le> int (fcard (p_visited (run_prim_frame N a))))"
proof -
  let ?fr0 = "\<lparr>p_adj = a, p_pq = [(0, 1)], p_visited = {||}, p_mst_weight = 0\<rparr>"
  have v: "\<forall>(u, v, w) \<in> set es. 1 \<le> u \<and> u \<le> N \<and> 1 \<le> v \<and> v \<le> N"
    using valid by (simp add: valid_edges_def)
  have fin: "finite (set es)" by simp
  have "prim_loop N ?fr0 = prim_loop N (prim_step ?fr0)"
    using N by (subst prim_loop_unfold) (simp add: fcard_fempty)
  then have run: "run_prim_frame N a = prim_loop N (prim_step ?fr0)"
    by (simp add: run_prim_frame_def)
  have "prim_inv N (set es) (prim_step ?fr0)" using fin N adj by (rule prim_first_step)
  with prim_loop_inv [OF fin v, of "prim_step ?fr0"] run
  have inv: "prim_inv N (set es) (run_prim_frame N a)"
    and exit: "\<not> (p_pq (run_prim_frame N a) \<noteq> [] \<and> int (fcard (p_visited (run_prim_frame N a))) < N)"
    by simp_all
  from prim_inv_final [OF v N inv exit] exit show ?thesis
    by (auto simp: run_prim_def)
qed

section \<open>Spanning trees and components\<close>

text \<open>
  The graph of a run has the vertices \<open>1, \<dots>, N\<close>. It is connected when its edges connect
  every two vertices; a spanning tree is a forest of its edges that does so, and a minimum
  spanning tree is one of least weight.
\<close>

definition graph_connected :: "int \<Rightarrow> edge set \<Rightarrow> bool" where
  "graph_connected N E \<longleftrightarrow> (\<forall>a b. 1 \<le> a \<and> a \<le> N \<and> 1 \<le> b \<and> b \<le> N \<longrightarrow> connected E a b)"

definition spanning_tree :: "int \<Rightarrow> edge set \<Rightarrow> edge set \<Rightarrow> bool" where
  "spanning_tree N E T \<longleftrightarrow>
     T \<subseteq> E \<and> forest T \<and> (\<forall>a b. 1 \<le> a \<and> a \<le> N \<and> 1 \<le> b \<and> b \<le> N \<longrightarrow> connected T a b)"

definition min_spanning_tree :: "int \<Rightarrow> edge set \<Rightarrow> edge set \<Rightarrow> bool" where
  "min_spanning_tree N E T \<longleftrightarrow>
     spanning_tree N E T \<and> (\<forall>T'. spanning_tree N E T' \<longrightarrow> weight T \<le> weight T')"

text \<open>
  A spanning tree of the connected component of the vertex \<open>r\<close>: a forest of edges of that
  component that connects \<open>r\<close> to every vertex the graph connects it to; and a minimum one.
\<close>

definition component_tree :: "edge set \<Rightarrow> int \<Rightarrow> edge set \<Rightarrow> bool" where
  "component_tree E r T \<longleftrightarrow>
     T \<subseteq> E \<and> forest T \<and> (\<forall>(u, v, w) \<in> T. connected E r u)
     \<and> (\<forall>x. connected E r x \<longrightarrow> connected T r x)"

definition min_component_tree :: "edge set \<Rightarrow> int \<Rightarrow> edge set \<Rightarrow> bool" where
  "min_component_tree E r T \<longleftrightarrow>
     component_tree E r T \<and> (\<forall>T'. component_tree E r T' \<longrightarrow> weight T \<le> weight T')"

lemma spanning_tree_forest:
  assumes valid: "\<forall>(u, v, w) \<in> E. 1 \<le> u \<and> u \<le> N \<and> 1 \<le> v \<and> v \<le> N"
    and conn: "graph_connected N E"
  shows "spanning_tree N E T \<longleftrightarrow> spanning_forest E T"
proof
  assume "spanning_tree N E T"
  then show "spanning_forest E T"
    using valid unfolding spanning_tree_def spanning_forest_def by blast
next
  assume sf: "spanning_forest E T"
  then have "\<forall>(u, v, w) \<in> E. connected T u v" by (simp add: spanning_forest_def)
  then have "\<And>a b. connected E a b \<Longrightarrow> connected T a b" by (rule connected_closure)
  with conn have "\<forall>a b. 1 \<le> a \<and> a \<le> N \<and> 1 \<le> b \<and> b \<le> N \<longrightarrow> connected T a b"
    unfolding graph_connected_def by blast
  with sf show "spanning_tree N E T"
    by (simp add: spanning_tree_def spanning_forest_def)
qed

lemma min_spanning_tree_forest:
  assumes "\<forall>(u, v, w) \<in> E. 1 \<le> u \<and> u \<le> N \<and> 1 \<le> v \<and> v \<le> N" and "graph_connected N E"
  shows "min_spanning_tree N E T \<longleftrightarrow> min_spanning_forest E T"
  unfolding min_spanning_tree_def min_spanning_forest_def spanning_tree_forest [OF assms] ..

lemma component_tree_forest: "component_tree E r T \<longleftrightarrow> spanning_forest (comp_edges E r) T"
proof
  assume ct: "component_tree E r T"
  then have TE: "T \<subseteq> E" and f: "forest T" and src: "\<forall>(u, v, w) \<in> T. connected E r u"
    and reach: "\<forall>x. connected E r x \<longrightarrow> connected T r x"
    by (auto simp: component_tree_def)
  have "T \<subseteq> comp_edges E r" using TE src by (auto simp: comp_edges_def)
  moreover have "\<forall>(u, v, w) \<in> comp_edges E r. connected T u v"
  proof (clarify)
    fix u v w assume "(u, v, w) \<in> comp_edges E r"
    then have e: "(u, v, w) \<in> E" and cu: "connected E r u" by (auto simp: comp_edges_def)
    from e have "connected E u v" by (rule connected_edge)
    with cu have "connected E r v" by (rule connected_trans)
    with cu reach have "connected T r u" "connected T r v" by auto
    then show "connected T u v" using connected_sym connected_trans by blast
  qed
  ultimately show "spanning_forest (comp_edges E r) T" using f by (simp add: spanning_forest_def)
next
  assume sf: "spanning_forest (comp_edges E r) T"
  then have TC: "T \<subseteq> comp_edges E r" and f: "forest T"
    and span: "\<forall>(u, v, w) \<in> comp_edges E r. connected T u v"
    by (auto simp: spanning_forest_def)
  have reach: "connected T r x" if "connected E r x" for x
  proof -
    from that have "(r, x) \<in> (endpoints E \<union> (endpoints E)\<inverse>)\<^sup>*"
      by (simp add: connected_def conn_def)
    then show ?thesis
    proof (induction rule: rtrancl_induct)
      case base
      show ?case by simp
    next
      case (step y z)
      have ry: "connected E r y" using step.hyps(1) by (simp add: connected_def conn_def)
      from step.hyps(2) obtain w where "(y, z, w) \<in> E \<or> (z, y, w) \<in> E"
        by (auto simp: endpoints_def)
      then have "connected T y z"
      proof
        assume e: "(y, z, w) \<in> E"
        with ry have "(y, z, w) \<in> comp_edges E r" by (simp add: comp_edges_def)
        with span show ?thesis by blast
      next
        assume e: "(z, y, w) \<in> E"
        then have "connected E y z" using connected_edge connected_sym by blast
        with ry have "connected E r z" by (rule connected_trans)
        with e have "(z, y, w) \<in> comp_edges E r" by (simp add: comp_edges_def)
        with span have "connected T z y" by blast
        then show ?thesis by (rule connected_sym)
      qed
      with step.IH show ?case by (rule connected_trans)
    qed
  qed
  show "component_tree E r T"
    unfolding component_tree_def using TC f reach by (auto simp: comp_edges_def)
qed

lemma min_component_tree_forest:
  "min_component_tree E r T \<longleftrightarrow> min_spanning_forest (comp_edges E r) T"
  unfolding min_component_tree_def min_spanning_forest_def component_tree_forest ..

lemma comp_edges_connected:
  assumes valid: "\<forall>(u, v, w) \<in> E. 1 \<le> u \<and> u \<le> N \<and> 1 \<le> v \<and> v \<le> N"
    and N: "1 \<le> N" and conn: "graph_connected N E"
  shows "comp_edges E 1 = E"
  using assms unfolding comp_edges_def graph_connected_def by fastforce

text \<open>When no edge of \<open>G\<close> leaves the vertex set \<open>C\<close>, a connection that starts in \<open>C\<close> uses
  only the edges inside \<open>C\<close>.\<close>

lemma connected_inside:
  assumes closed: "\<forall>(a, b, c) \<in> G. a \<in> C \<longleftrightarrow> b \<in> C" and xy: "connected G x y" and x: "x \<in> C"
  shows "connected {(a, b, c). (a, b, c) \<in> G \<and> a \<in> C} x y"
proof -
  let ?R = "{(a, b, c). (a, b, c) \<in> G \<and> a \<in> C}"
  from xy have "(x, y) \<in> (endpoints G \<union> (endpoints G)\<inverse>)\<^sup>*"
    by (simp add: connected_def conn_def)
  then have "connected ?R x y \<and> y \<in> C"
  proof (induction rule: rtrancl_induct)
    case base
    have "connected ?R x x" by (rule connected_refl)
    then show ?case using x by (rule conjI)
  next
    case (step y z)
    from step.IH have y: "y \<in> C" by (rule conjunct2)
    from step.IH have xy': "connected ?R x y" by (rule conjunct1)
    from step.hyps(2) obtain w where "(y, z, w) \<in> G \<or> (z, y, w) \<in> G"
      by (auto simp: endpoints_def)
    then have "connected ?R y z \<and> z \<in> C"
    proof
      assume e: "(y, z, w) \<in> G"
      with y closed have z: "z \<in> C" by blast
      from e y have "(y, z, w) \<in> ?R" by simp
      then have "connected ?R y z" by (rule connected_edge)
      then show ?thesis using z by (rule conjI)
    next
      assume e: "(z, y, w) \<in> G"
      with y closed have z: "z \<in> C" by blast
      with e have "(z, y, w) \<in> ?R" by simp
      then have "connected ?R z y" by (rule connected_edge)
      then have "connected ?R y z" by (rule connected_sym)
      then show ?thesis using z by (rule conjI)
    qed
    then have "connected ?R y z" and z: "z \<in> C" by (rule conjunct1, rule conjunct2)
    from xy' this(1) have "connected ?R x z" by (rule connected_trans)
    then show ?case using z by (rule conjI)
  qed
  then show ?thesis by (rule conjunct1)
qed

lemma comp_edges_closed:
  "\<forall>(a, b, c) \<in> E. a \<in> {x. connected E r x} \<longleftrightarrow> b \<in> {x. connected E r x}"
proof (clarify)
  fix a b c assume "(a, b, c) \<in> E"
  then have "connected E a b" by (rule connected_edge)
  then show "a \<in> {x. connected E r x} \<longleftrightarrow> b \<in> {x. connected E r x}"
    using connected_sym connected_trans by blast
qed

lemma comp_edges_alt: "comp_edges E r = {(a, b, c). (a, b, c) \<in> E \<and> a \<in> {x. connected E r x}}"
  by (simp add: comp_edges_def)

text \<open>A minimum spanning forest, cut down to the component of a vertex, is a minimum
  spanning tree of that component.\<close>

lemma min_spanning_forest_component:
  assumes fin: "finite E" and F: "min_spanning_forest E F"
  shows "min_component_tree E r (F \<inter> comp_edges E r)"
proof -
  let ?C = "{x. connected E r x}"
  let ?Er = "comp_edges E r"
  let ?Fr = "F \<inter> ?Er"
  let ?Fo = "F - ?Er"
  have FE: "F \<subseteq> E" and fF: "forest F" and span: "\<forall>(u, v, w) \<in> E. connected F u v"
    and least: "\<forall>F'. spanning_forest E F' \<longrightarrow> weight F \<le> weight F'"
    using F by (auto simp: min_spanning_forest_def spanning_forest_def)
  have finF: "finite F" using FE fin by (rule finite_subset)
  have Eclosed: "\<forall>(a, b, c) \<in> E. a \<in> ?C \<longleftrightarrow> b \<in> ?C" by (rule comp_edges_closed)
  have Fclosed: "\<forall>(a, b, c) \<in> F. a \<in> ?C \<longleftrightarrow> b \<in> ?C" using Eclosed FE by blast
  have Fclosed': "\<forall>(a, b, c) \<in> F. a \<in> - ?C \<longleftrightarrow> b \<in> - ?C" using Fclosed by blast
  have Fr_eq: "?Fr = {(a, b, c). (a, b, c) \<in> F \<and> a \<in> ?C}"
    using FE by (auto simp: comp_edges_def)
  have Fo_eq: "?Fo = {(a, b, c). (a, b, c) \<in> F \<and> a \<in> - ?C}"
    using FE by (auto simp: comp_edges_def)
  have sfr: "spanning_forest ?Er ?Fr"
    unfolding spanning_forest_def
  proof (intro conjI)
    show "?Fr \<subseteq> ?Er" by simp
    show "forest ?Fr" using fF by (rule forest_subset) simp
    show "\<forall>(u, v, w) \<in> ?Er. connected ?Fr u v"
    proof (clarify)
      fix u v w assume e: "(u, v, w) \<in> ?Er"
      then have "connected F u v" and u: "u \<in> ?C" using span by (auto simp: comp_edges_def)
      from connected_inside [OF Fclosed this] show "connected ?Fr u v" unfolding Fr_eq .
    qed
  qed
  have better: "weight ?Fr \<le> weight T" if T: "spanning_forest ?Er T" for T
  proof -
    have TEr: "T \<subseteq> ?Er" and fT: "forest T" and spanT: "\<forall>(u, v, w) \<in> ?Er. connected T u v"
      using T by (auto simp: spanning_forest_def)
    let ?G = "?Fo \<union> T"
    have Tin: "\<forall>(a, b, c) \<in> T. a \<in> ?C \<and> b \<in> ?C"
      using TEr Eclosed by (auto simp: comp_edges_def)
    have Gclosed: "\<forall>(a, b, c) \<in> ?G. a \<in> ?C \<longleftrightarrow> b \<in> ?C"
      using Tin Fclosed by blast
    have fG: "forest ?G"
      unfolding forest_def
    proof (clarify)
      fix u v w assume e: "(u, v, w) \<in> ?G" and c: "connected (?G - {(u, v, w)}) u v"
      have cl: "\<forall>(a, b, c) \<in> ?G - {(u, v, w)}. a \<in> ?C \<longleftrightarrow> b \<in> ?C" using Gclosed by blast
      have cl': "\<forall>(a, b, c) \<in> ?G - {(u, v, w)}. a \<in> - ?C \<longleftrightarrow> b \<in> - ?C" using Gclosed by blast
      show False
      proof (cases "u \<in> ?C")
        case True
        have "{(a, b, c). (a, b, c) \<in> ?G - {(u, v, w)} \<and> a \<in> ?C} \<subseteq> T - {(u, v, w)}"
          using FE by (auto simp: comp_edges_def)
        with connected_inside [OF cl c True] have "connected (T - {(u, v, w)}) u v"
          using connected_mono by blast
        moreover have "(u, v, w) \<in> T" using e True FE by (auto simp: comp_edges_def)
        ultimately show False using fT by (auto simp: forest_def)
      next
        case False
        then have u: "u \<in> - ?C" by simp
        have "{(a, b, c). (a, b, c) \<in> ?G - {(u, v, w)} \<and> a \<in> - ?C} \<subseteq> F - {(u, v, w)}"
          using Tin by auto
        with connected_inside [OF cl' c u] have "connected (F - {(u, v, w)}) u v"
          using connected_mono by blast
        moreover have "(u, v, w) \<in> F" using e False Tin by auto
        ultimately show False using fF by (auto simp: forest_def)
      qed
    qed
    have spanG: "\<forall>(u, v, w) \<in> E. connected ?G u v"
    proof (clarify)
      fix u v w assume e: "(u, v, w) \<in> E"
      show "connected ?G u v"
      proof (cases "u \<in> ?C")
        case True
        with e have "(u, v, w) \<in> ?Er" by (simp add: comp_edges_def)
        with spanT have "connected T u v" by blast
        then show ?thesis by (rule connected_mono [rotated]) simp
      next
        case False
        then have u: "u \<in> - ?C" by simp
        from e span have "connected F u v" by blast
        from connected_inside [OF Fclosed' this u] have "connected ?Fo u v" unfolding Fo_eq .
        then show ?thesis by (rule connected_mono [rotated]) simp
      qed
    qed
    have "?G \<subseteq> E" using FE TEr comp_edges_subset by blast
    with fG spanG have "spanning_forest E ?G" by (simp add: spanning_forest_def)
    with least have le: "weight F \<le> weight ?G" by blast
    have finT: "finite T" using TEr comp_edges_subset fin by (meson finite_subset)
    have "?Fo \<inter> T = {}" using TEr by blast
    then have wG: "weight ?G = weight ?Fo + weight T"
      unfolding weight_def using finF finT by (intro sum.union_disjoint) simp_all
    have "?Fo \<inter> ?Fr = {}" by blast
    moreover have "F = ?Fo \<union> ?Fr" by blast
    ultimately have wF: "weight F = weight ?Fo + weight ?Fr"
      unfolding weight_def using finF by (metis (no_types, lifting) finite_Diff finite_Int sum.union_disjoint)
    from le wG wF show ?thesis by simp
  qed
  from sfr better have "min_spanning_forest ?Er ?Fr" by (simp add: min_spanning_forest_def)
  then show ?thesis by (simp add: min_component_tree_forest)
qed


text \<open>One vertex for each connected component of the graph on \<open>1, \<dots>, N\<close>: its least vertex.\<close>

definition component_roots :: "int \<Rightarrow> edge set \<Rightarrow> int set" where
  "component_roots N E = {r. 1 \<le> r \<and> r \<le> N \<and> (\<forall>x. connected E r x \<longrightarrow> r \<le> x)}"

lemma connected_in_range:
  assumes valid: "\<forall>(u, v, w) \<in> E. 1 \<le> u \<and> u \<le> N \<and> 1 \<le> v \<and> v \<le> N"
    and r: "1 \<le> r" "r \<le> N" and c: "connected E r x"
  shows "1 \<le> x \<and> x \<le> N"
proof -
  have "\<forall>(u, v, w) \<in> E. u \<in> {1..N} \<longleftrightarrow> v \<in> {1..N}" using valid by auto
  from connected_stays [OF this c] r show ?thesis by simp
qed

lemma component_root_exists:
  assumes valid: "\<forall>(u, v, w) \<in> E. 1 \<le> u \<and> u \<le> N \<and> 1 \<le> v \<and> v \<le> N"
    and u: "1 \<le> u" "u \<le> N"
  shows "\<exists>r \<in> component_roots N E. connected E r u"
proof -
  let ?K = "{x. connected E u x}"
  have sub: "?K \<subseteq> {1..N}" using connected_in_range [OF valid u] by auto
  then have fin: "finite ?K" by (rule finite_subset) simp
  have ne: "?K \<noteq> {}" using connected_refl [of E u] by blast
  let ?r = "Min ?K"
  have rK: "?r \<in> ?K" using fin ne by (rule Min_in)
  then have ur: "connected E u ?r" by simp
  then have ru: "connected E ?r u" by (rule connected_sym)
  have "\<forall>x. connected E ?r x \<longrightarrow> ?r \<le> x"
  proof (intro allI impI)
    fix x assume "connected E ?r x"
    with ur have "connected E u x" by (rule connected_trans)
    then have "x \<in> ?K" by simp
    with fin show "?r \<le> x" by (rule Min_le)
  qed
  moreover have "1 \<le> ?r \<and> ?r \<le> N" using rK sub by auto
  ultimately have "?r \<in> component_roots N E" by (simp add: component_roots_def)
  with ru show ?thesis by blast
qed

lemma weight_by_components:
  assumes valid: "\<forall>(u, v, w) \<in> E. 1 \<le> u \<and> u \<le> N \<and> 1 \<le> v \<and> v \<le> N"
    and fin: "finite F" and FE: "F \<subseteq> E"
  shows "weight F = (\<Sum>r \<in> component_roots N E. weight (F \<inter> comp_edges E r))"
proof -
  let ?I = "component_roots N E"
  let ?A = "\<lambda>r. F \<inter> comp_edges E r"
  have "?I \<subseteq> {1..N}" by (auto simp: component_roots_def)
  then have finI: "finite ?I" by (rule finite_subset) simp
  have finA: "\<forall>r \<in> ?I. finite (?A r)" using fin by simp
  have disj: "\<forall>r \<in> ?I. \<forall>s \<in> ?I. r \<noteq> s \<longrightarrow> ?A r \<inter> ?A s = {}"
  proof (intro ballI impI)
    fix r s assume r: "r \<in> ?I" and s: "s \<in> ?I" and ne: "r \<noteq> s"
    show "?A r \<inter> ?A s = {}"
    proof (rule ccontr)
      assume "?A r \<inter> ?A s \<noteq> {}"
      then obtain u v w where "connected E r u" "connected E s u"
        by (auto simp: comp_edges_def)
      then have "connected E r s" "connected E s r"
        using connected_sym connected_trans by blast+
      with r s have "r \<le> s" "s \<le> r" by (auto simp: component_roots_def)
      with ne show False by simp
    qed
  qed
  have cover: "F = (\<Union>r \<in> ?I. ?A r)"
  proof
    show "F \<subseteq> (\<Union>r \<in> ?I. ?A r)"
    proof
      fix e assume e: "e \<in> F"
      obtain u v w where uvw: "e = (u, v, w)" by (cases e)
      with e FE valid have "(u, v, w) \<in> E" "1 \<le> u" "u \<le> N" by auto
      with component_root_exists [OF valid, of u] obtain r where
        "r \<in> ?I" "connected E r u" by blast
      with \<open>(u, v, w) \<in> E\<close> e uvw have "r \<in> ?I" "e \<in> ?A r" by (auto simp: comp_edges_def)
      then show "e \<in> (\<Union>r \<in> ?I. ?A r)" by blast
    qed
  next
    show "(\<Union>r \<in> ?I. ?A r) \<subseteq> F" by blast
  qed
  have "weight F = sum (\<lambda>(u, v, w). w) (\<Union>r \<in> ?I. ?A r)"
    unfolding weight_def using cover by simp
  also have "\<dots> = (\<Sum>r \<in> ?I. sum (\<lambda>(u, v, w). w) (?A r))"
    using finI finA disj by (rule sum.UNION_disjoint)
  finally show ?thesis by (simp add: weight_def)
qed


section \<open>The subscripts of a run of Kruskal\<close>

text \<open>
  \<^verbatim>\<open>find\<close>, \<^verbatim>\<open>union\<close> and \<^verbatim>\<open>run_kruskal\<close> once more, statement by statement as above, but
  returning with their result the list of the subscripts they used on \<^verbatim>\<open>parent\<close> and
  \<^verbatim>\<open>rank\<close>, in the order of use: each \<open>list_get xs i\<close> and each \<open>list_set xs i v\<close> adds \<open>i\<close> to
  the list. (\<^verbatim>\<open>self.rank[root_i] += 1\<close> reads and writes \<^verbatim>\<open>rank[root_i]\<close>.)
\<close>

partial_function (option) find_sub ::
  "union_find \<Rightarrow> int \<Rightarrow> ((union_find \<times> int) \<times> int list) result" where
  "find_sub uf i =
     bindr (lift (list_get (parent uf) i)) (\<lambda>p.
     bindr (if p \<noteq> i then
              bindr (lift (list_get (parent uf) i)) (\<lambda>q.
              bindr (find_sub uf q) (\<lambda>((uf1, r), t).
              bindr (lift (list_set (parent uf1) i r)) (\<lambda>ps.
              ok (uf1\<lparr>parent := ps\<rparr>, [i, i] @ t @ [i]))))
            else ok (uf, [i])) (\<lambda>(uf2, t).
     bindr (lift (list_get (parent uf2) i)) (\<lambda>res.
     ok ((uf2, res), t @ [i]))))"

declare find_sub.simps [code]

definition union_sub ::
  "union_find \<Rightarrow> int \<Rightarrow> int \<Rightarrow> ((union_find \<times> bool) \<times> int list) result" where
  "union_sub uf i j =
     bindr (find_sub uf i) (\<lambda>((uf1, root_i), t1).
     bindr (find_sub uf1 j) (\<lambda>((uf2, root_j), t2).
       if root_i \<noteq> root_j then
         bindr (lift (list_get (rank uf2) root_i)) (\<lambda>rank_i.
         bindr (lift (list_get (rank uf2) root_j)) (\<lambda>rank_j.
         let t3 = t1 @ t2 @ [root_i, root_j];
             (root_i, root_j) = (if rank_i < rank_j then (root_j, root_i) else (root_i, root_j)) in
         bindr (lift (list_set (parent uf2) root_j root_i)) (\<lambda>ps.
         let uf3 = uf2\<lparr>parent := ps\<rparr>;
             t4 = t3 @ [root_j] in
         bindr (lift (list_get (rank uf3) root_i)) (\<lambda>rank_i'.
         bindr (lift (list_get (rank uf3) root_j)) (\<lambda>rank_j'.
         let t5 = t4 @ [root_i, root_j] in
         if rank_i' = rank_j' then
           bindr (lift (list_set (rank uf3) root_i (rank_i' + 1))) (\<lambda>rs.
           ok ((uf3\<lparr>rank := rs\<rparr>, True), t5 @ [root_i, root_i]))
         else ok ((uf3, True), t5))))))
       else ok ((uf2, False), t1 @ t2)))"

definition kruskal_step_sub :: "kruskal_frame \<Rightarrow> edge \<Rightarrow> (kruskal_frame \<times> int list) result" where
  "kruskal_step_sub fr e =
     (case e of (u, v, w) \<Rightarrow>
        bindr (union_sub (k_uf fr) u v) (\<lambda>((uf', merged), t).
          if merged
          then ok (fr\<lparr>k_uf := uf', k_mst_weight := k_mst_weight fr + w,
                   k_edges_count := k_edges_count fr + 1\<rparr>, t)
          else ok (fr\<lparr>k_uf := uf'\<rparr>, t)))"

fun kruskal_loop_sub :: "edge list \<Rightarrow> kruskal_frame \<Rightarrow> (kruskal_frame \<times> int list) result" where
  "kruskal_loop_sub [] fr = ok (fr, [])"
| "kruskal_loop_sub (e # es) fr =
     bindr (kruskal_step_sub fr e) (\<lambda>(fr1, t1).
     bindr (kruskal_loop_sub es fr1) (\<lambda>(fr2, t2). ok (fr2, t1 @ t2)))"

definition run_kruskal_sub :: "int \<Rightarrow> edge list \<Rightarrow> (kruskal_frame \<times> int list) result" where
  "run_kruskal_sub num_nodes es =
     (let fr = \<lparr> k_edges = es, k_uf = UnionFind num_nodes, k_mst_weight = 0, k_edges_count = 0 \<rparr>;
          sorted_edges = sort_key (\<lambda>(u, v, w). w) (k_edges fr)
      in kruskal_loop_sub sorted_edges fr)"

lemma find_sub_root:
  "root_of l i r \<Longrightarrow> parent uf = l \<Longrightarrow>
   \<exists>uf' t. find uf i = ok (uf', r) \<and> find_sub uf i = ok ((uf', r), t)
      \<and> (\<forall>k \<in> set t. 0 \<le> k \<and> k < int (length l))"
proof (induction arbitrary: uf rule: root_of.induct)
  case (root i)
  have "find uf i = ok (uf, i)"
    using root by (subst find.simps) (simp add: list_get_in)
  moreover have "find_sub uf i = ok ((uf, i), [i, i])"
    using root by (subst find_sub.simps) (simp add: list_get_in)
  moreover have "\<forall>k \<in> set [i, i]. 0 \<le> k \<and> k < int (length l)" using root.hyps by simp
  ultimately show ?case by blast
next
  case (step i r)
  from step.IH [OF step.prems] obtain uf1 t where
    f1: "find uf (l ! nat i) = ok (uf1, r)" and
    s1: "find_sub uf (l ! nat i) = ok ((uf1, r), t)" and
    t: "\<forall>k \<in> set t. 0 \<le> k \<and> k < int (length l)"
    by blast
  from find_root_aux [OF step.hyps(4) step.prems] f1 have len1: "length (parent uf1) = length l"
    by auto
  let ?uf' = "uf1\<lparr>parent := (parent uf1)[nat i := r]\<rparr>"
  have "find uf i = ok (?uf', r)"
    using step.hyps step.prems f1 len1
    by (subst find.simps) (simp add: list_get_in list_set_in)
  moreover have "find_sub uf i = ok ((?uf', r), [i, i] @ t @ [i] @ [i])"
    using step.hyps step.prems s1 len1
    by (subst find_sub.simps) (simp add: list_get_in list_set_in)
  moreover have "\<forall>k \<in> set ([i, i] @ t @ [i] @ [i]). 0 \<le> k \<and> k < int (length l)"
    using t step.hyps by auto
  ultimately show ?case by blast
qed

lemma find_sub_ok:
  assumes inv: "uf_inv uf" and xr: "0 \<le> x" "x < int (length (parent uf))"
  shows "\<exists>uf' r t. find uf x = ok (uf', r) \<and> find_sub uf x = ok ((uf', r), t)
      \<and> (\<forall>k \<in> set t. 0 \<le> k \<and> k < int (length (parent uf)))
      \<and> uf_inv uf' \<and> length (parent uf') = length (parent uf) \<and> rank uf' = rank uf
      \<and> 0 \<le> r \<and> r < int (length (parent uf))"
proof -
  from find_ok [OF inv xr] obtain uf' r where
    f: "find uf x = ok (uf', r)" and inv': "uf_inv uf'" and
    len': "length (parent uf') = length (parent uf)" and rk: "rank uf' = rank uf" and
    r: "root_of (parent uf) x r"
    by blast
  from find_sub_root [OF r refl] f obtain t where
    "find_sub uf x = ok ((uf', r), t)" "\<forall>k \<in> set t. 0 \<le> k \<and> k < int (length (parent uf))"
    by auto
  moreover have "0 \<le> r \<and> r < int (length (parent uf))" using root_of_is_root [OF r] by simp
  ultimately show ?thesis using f inv' len' rk by blast
qed


lemma union_sub_ok:
  assumes inv: "uf_inv uf"
    and xr: "0 \<le> x" "x < int (length (parent uf))"
    and yr: "0 \<le> y" "y < int (length (parent uf))"
  shows "\<exists>uf' b t. union uf x y = ok (uf', b) \<and> union_sub uf x y = ok ((uf', b), t)
      \<and> (\<forall>k \<in> set t. 0 \<le> k \<and> k < int (length (parent uf)))
      \<and> uf_inv uf' \<and> length (parent uf') = length (parent uf)"
proof -
  from union_ok [OF inv xr yr] obtain uf' b where
    u: "union uf x y = ok (uf', b)" and inv': "uf_inv uf'" and
    len': "length (parent uf') = length (parent uf)"
    by blast
  from find_sub_ok [OF inv xr] obtain uf1 rx t1 where
    f1: "find uf x = ok (uf1, rx)" and s1: "find_sub uf x = ok ((uf1, rx), t1)" and
    t1: "\<forall>k \<in> set t1. 0 \<le> k \<and> k < int (length (parent uf))" and
    inv1: "uf_inv uf1" and len1: "length (parent uf1) = length (parent uf)" and
    rk1: "rank uf1 = rank uf" and rxr: "0 \<le> rx" "rx < int (length (parent uf))"
    by blast
  have yr1: "0 \<le> y" "y < int (length (parent uf1))" using yr len1 by simp_all
  from find_sub_ok [OF inv1 yr1] obtain uf2 ry t2 where
    f2: "find uf1 y = ok (uf2, ry)" and s2: "find_sub uf1 y = ok ((uf2, ry), t2)" and
    t2: "\<forall>k \<in> set t2. 0 \<le> k \<and> k < int (length (parent uf))" and
    len2: "length (parent uf2) = length (parent uf)" and
    rk2: "rank uf2 = rank uf" and ryr: "0 \<le> ry" "ry < int (length (parent uf))"
    using len1 rk1 by auto
  have lr: "length (rank uf) = length (parent uf)" using inv by (simp add: uf_inv_def)
  have "\<exists>t. union_sub uf x y = ok ((uf', b), t) \<and> set t \<subseteq> set t1 \<union> set t2 \<union> {rx, ry}"
  proof (cases "rx = ry")
    case True
    with u have "uf' = uf2" "b = False" by (simp_all add: union_def f1 f2)
    moreover have "union_sub uf x y = ok ((uf2, False), t1 @ t2)"
      using True by (simp add: union_sub_def s1 s2)
    ultimately show ?thesis by auto
  next
    case ne: False
    show ?thesis
    proof (cases "rank uf ! nat rx < rank uf ! nat ry")
      case True
      with u ne have "uf' = uf2\<lparr>parent := (parent uf2)[nat rx := ry]\<rparr>" "b = True"
        using rxr ryr lr len2 rk2 by (auto simp: union_def f1 f2 list_get_in list_set_in)
      moreover have "union_sub uf x y =
          ok ((uf2\<lparr>parent := (parent uf2)[nat rx := ry]\<rparr>, True), t1 @ t2 @ [rx, ry, rx, ry, rx])"
        using True ne rxr ryr lr len2 rk2
        by (auto simp: union_sub_def s1 s2 list_get_in list_set_in Let_def)
      ultimately show ?thesis by auto
    next
      case nlt: False
      show ?thesis
      proof (cases "rank uf ! nat rx = rank uf ! nat ry")
        case True
        with u ne have "uf' = uf2\<lparr>parent := (parent uf2)[nat ry := rx],
            rank := (rank uf)[nat rx := rank uf ! nat rx + 1]\<rparr>" "b = True"
          using rxr ryr lr len2 rk2 by (auto simp: union_def f1 f2 list_get_in list_set_in)
        moreover have "union_sub uf x y =
          ok ((uf2\<lparr>parent := (parent uf2)[nat ry := rx],
                   rank := (rank uf)[nat rx := rank uf ! nat rx + 1]\<rparr>, True),
              t1 @ t2 @ [rx, ry, ry, rx, ry, rx, rx])"
          using True ne rxr ryr lr len2 rk2
          by (auto simp: union_sub_def s1 s2 list_get_in list_set_in Let_def)
        ultimately show ?thesis by auto
      next
        case False
        with u ne nlt have "uf' = uf2\<lparr>parent := (parent uf2)[nat ry := rx]\<rparr>" "b = True"
          using rxr ryr lr len2 rk2 by (auto simp: union_def f1 f2 list_get_in list_set_in)
        moreover have "union_sub uf x y =
          ok ((uf2\<lparr>parent := (parent uf2)[nat ry := rx]\<rparr>, True), t1 @ t2 @ [rx, ry, ry, rx, ry])"
          using False ne nlt rxr ryr lr len2 rk2
          by (auto simp: union_sub_def s1 s2 list_get_in list_set_in Let_def)
        ultimately show ?thesis by auto
      qed
    qed
  qed
  then obtain t where st: "union_sub uf x y = ok ((uf', b), t)"
    and sub: "set t \<subseteq> set t1 \<union> set t2 \<union> {rx, ry}" by blast
  have "\<forall>k \<in> set t. 0 \<le> k \<and> k < int (length (parent uf))"
    using sub t1 t2 rxr ryr by auto
  with u st inv' len' show ?thesis by blast
qed


lemma kruskal_step_sub_ok:
  assumes inv: "uf_inv (k_uf fr)" and len: "length (parent (k_uf fr)) = nat (N + 1)"
    and ur: "1 \<le> u" "u \<le> N" and vr: "1 \<le> v" "v \<le> N"
  shows "\<exists>fr' t. kruskal_step fr (u, v, w) = ok fr' \<and> kruskal_step_sub fr (u, v, w) = ok (fr', t)
      \<and> (\<forall>k \<in> set t. 0 \<le> k \<and> k \<le> N)
      \<and> uf_inv (k_uf fr') \<and> length (parent (k_uf fr')) = nat (N + 1)"
proof -
  have "0 \<le> u" "u < int (length (parent (k_uf fr)))" "0 \<le> v" "v < int (length (parent (k_uf fr)))"
    using ur vr len by auto
  from union_sub_ok [OF inv this] obtain uf' b t where
    u: "union (k_uf fr) u v = ok (uf', b)" and s: "union_sub (k_uf fr) u v = ok ((uf', b), t)" and
    t: "\<forall>k \<in> set t. 0 \<le> k \<and> k < int (length (parent (k_uf fr)))" and
    inv': "uf_inv uf'" and len': "length (parent uf') = length (parent (k_uf fr))"
    by blast
  have t': "\<forall>k \<in> set t. 0 \<le> k \<and> k \<le> N" using t len ur by auto
  show ?thesis
  proof (cases b)
    case True
    let ?fr' = "fr\<lparr>k_uf := uf', k_mst_weight := k_mst_weight fr + w,
                   k_edges_count := k_edges_count fr + 1\<rparr>"
    have "kruskal_step fr (u, v, w) = ok ?fr'" using u True by (simp add: kruskal_step_def)
    moreover have "kruskal_step_sub fr (u, v, w) = ok (?fr', t)"
      using s True by (simp add: kruskal_step_sub_def)
    moreover have "uf_inv (k_uf ?fr')" "length (parent (k_uf ?fr')) = nat (N + 1)"
      using inv' len' len by simp_all
    ultimately show ?thesis using t' by blast
  next
    case False
    let ?fr' = "fr\<lparr>k_uf := uf'\<rparr>"
    have "kruskal_step fr (u, v, w) = ok ?fr'" using u False by (simp add: kruskal_step_def)
    moreover have "kruskal_step_sub fr (u, v, w) = ok (?fr', t)"
      using s False by (simp add: kruskal_step_sub_def)
    moreover have "uf_inv (k_uf ?fr')" "length (parent (k_uf ?fr')) = nat (N + 1)"
      using inv' len' len by simp_all
    ultimately show ?thesis using t' by blast
  qed
qed

lemma kruskal_loop_sub_ok:
  assumes "uf_inv (k_uf fr)" and "length (parent (k_uf fr)) = nat (N + 1)"
    and "valid_edges N es"
  shows "\<exists>fr' t. kruskal_loop es fr = ok fr' \<and> kruskal_loop_sub es fr = ok (fr', t)
      \<and> (\<forall>k \<in> set t. 0 \<le> k \<and> k \<le> N)"
  using assms
proof (induction es arbitrary: fr)
  case Nil
  show ?case by simp
next
  case (Cons e es)
  obtain u v w where e: "e = (u, v, w)" by (cases e)
  have rng: "1 \<le> u" "u \<le> N" "1 \<le> v" "v \<le> N"
    using Cons.prems(3) e by (auto simp: valid_edges_def)
  from kruskal_step_sub_ok [OF Cons.prems(1,2) rng] obtain fr1 t1 where
    st: "kruskal_step fr (u, v, w) = ok fr1" and ss: "kruskal_step_sub fr (u, v, w) = ok (fr1, t1)"
    and t1: "\<forall>k \<in> set t1. 0 \<le> k \<and> k \<le> N"
    and inv1: "uf_inv (k_uf fr1)" and len1: "length (parent (k_uf fr1)) = nat (N + 1)"
    by blast
  have va: "valid_edges N es" using Cons.prems(3) by (simp add: valid_edges_def)
  from Cons.IH [OF inv1 len1 va] obtain fr2 t2 where
    lp: "kruskal_loop es fr1 = ok fr2" and ls: "kruskal_loop_sub es fr1 = ok (fr2, t2)"
    and t2: "\<forall>k \<in> set t2. 0 \<le> k \<and> k \<le> N"
    by blast
  have "kruskal_loop (e # es) fr = ok fr2" using st lp e by simp
  moreover have "kruskal_loop_sub (e # es) fr = ok (fr2, t1 @ t2)" using ss ls e by simp
  moreover have "\<forall>k \<in> set (t1 @ t2). 0 \<le> k \<and> k \<le> N" using t1 t2 by auto
  ultimately show ?case by blast
qed

lemma run_kruskal_sub_ok:
  assumes "valid_edges N es"
  shows "\<exists>fr t. run_kruskal_frame N es = ok fr \<and> run_kruskal_sub N es = ok (fr, t)
      \<and> (\<forall>k \<in> set t. 0 \<le> k \<and> k \<le> N)"
proof -
  let ?fr0 = "\<lparr>k_edges = es, k_uf = UnionFind N, k_mst_weight = 0, k_edges_count = 0\<rparr>"
  have "uf_inv (k_uf ?fr0)" "length (parent (k_uf ?fr0)) = nat (N + 1)"
    by (simp_all add: UnionFind_inv UnionFind_length)
  moreover have "valid_edges N (sort_key (\<lambda>(u, v, w). w) es)"
    using assms by (simp add: valid_edges_sort)
  ultimately show ?thesis
    unfolding run_kruskal_frame_def run_kruskal_sub_def Let_def
    using kruskal_loop_sub_ok by simp
qed

section \<open>The properties of the specification\<close>

text \<open>
  C1. Let the graph have the vertices \<open>1, \<dots>, N\<close> with \<open>N \<ge> 1\<close>, every edge of the edge list
  joining two of them, let the adjacency structure hold both directions of every edge (and
  nothing else), and let the graph be connected. Then \<^verbatim>\<open>run_kruskal\<close> returns, and the total
  weight it returns is the total weight \<^verbatim>\<open>run_prim\<close> returns and is the weight of a minimum
  spanning tree of the graph.
\<close>

theorem C1_connected_graph_mst_weight:
  assumes N: "1 \<le> N" and valid: "valid_edges N es" and adj: "adjacency_of (set es) a"
    and conn: "graph_connected N (set es)"
  shows "\<exists>T. min_spanning_tree N (set es) T \<and> run_kruskal N es = ok (weight T)
           \<and> run_prim N a = weight T"
proof -
  have v: "\<forall>(u, v, w) \<in> set es. 1 \<le> u \<and> u \<le> N \<and> 1 \<le> v \<and> v \<le> N"
    using valid by (simp add: valid_edges_def)
  from run_kruskal_correct [OF valid] obtain fr F where
    k: "run_kruskal_frame N es = ok fr" and F: "min_spanning_forest (set es) F"
    and kw: "k_mst_weight fr = weight F"
    by blast
  from run_prim_correct [OF valid N adj] obtain T where
    T: "min_spanning_forest (comp_edges (set es) 1) T" and pw: "run_prim N a = weight T"
    by blast
  from T have T': "min_spanning_forest (set es) T"
    by (simp add: comp_edges_connected [OF v N conn])
  have "weight F \<le> weight T" "weight T \<le> weight F"
    using F T' by (auto simp: min_spanning_forest_def)
  then have eq: "weight T = weight F" by simp
  have "min_spanning_tree N (set es) F"
    using F by (simp add: min_spanning_tree_forest [OF v conn])
  moreover have "run_kruskal N es = ok (weight F)" using k kw by (simp add: run_kruskal_def)
  moreover have "run_prim N a = weight F" using pw eq by simp
  ultimately show ?thesis by blast
qed

theorem C1_connected_graph_mst_weight_witness:
  "\<exists>T. min_spanning_tree 3 (set [(1, 2, 1), (2, 3, 2), (1, 3, 3)]) T
     \<and> run_kruskal 3 [(1, 2, 1), (2, 3, 2), (1, 3, 3)] = ok (weight T)
     \<and> run_prim 3 (build_adj [(1, 2, 1), (2, 3, 2), (1, 3, 3)]) = weight T"
proof -
  let ?es = "[(1, 2, 1), (2, 3, 2), (1, 3, 3)] :: edge list"
  have N: "(1::int) \<le> 3" by simp
  have v: "valid_edges 3 ?es" by (simp add: valid_edges_def)
  have c12: "connected (set ?es) 1 2" by (rule connected_edge [of 1 2 1]) simp
  have c23: "connected (set ?es) 2 3" by (rule connected_edge [of 2 3 2]) simp
  have c13: "connected (set ?es) 1 3" using c12 c23 by (rule connected_trans)
  have all1: "connected (set ?es) 1 x" if "1 \<le> x" "x \<le> 3" for x
  proof -
    from that have "x = 1 \<or> x = 2 \<or> x = 3" by arith
    with c12 c13 show ?thesis by auto
  qed
  have g: "graph_connected 3 (set ?es)"
    unfolding graph_connected_def
  proof (intro allI impI)
    fix x y :: int assume "1 \<le> x \<and> x \<le> 3 \<and> 1 \<le> y \<and> y \<le> 3"
    then have "connected (set ?es) 1 x" "connected (set ?es) 1 y" using all1 by auto
    then show "connected (set ?es) x y" using connected_sym connected_trans by blast
  qed
  show ?thesis
    by (rule C1_connected_graph_mst_weight [OF N v build_adj_adjacency g])
qed

text \<open>
  C2. Let every edge of the edge list join two vertices of \<open>1, \<dots>, N\<close>, let the adjacency
  structure hold both directions of every edge (and nothing else), and let the graph not
  be connected. Then both functions return. \<^verbatim>\<open>run_kruskal\<close> returns the weight of a minimum
  spanning forest \<open>F\<close> of the graph; the part of \<open>F\<close> in each connected component is a minimum
  spanning tree of that component, and the weight of \<open>F\<close> is the sum of the weights of these
  trees, one for each component. \<^verbatim>\<open>run_prim\<close> returns the weight of a minimum spanning tree
  of the component of vertex 1 only, and its loop ends with the queue empty and fewer than
  \<open>N\<close> vertices visited.
\<close>

theorem C2_disconnected_graph_weights:
  assumes valid: "valid_edges N es" and adj: "adjacency_of (set es) a"
    and disc: "\<not> graph_connected N (set es)"
  shows "\<exists>F T. min_spanning_forest (set es) F \<and> run_kruskal N es = ok (weight F)
           \<and> (\<forall>r. min_component_tree (set es) r (F \<inter> comp_edges (set es) r))
           \<and> weight F = (\<Sum>r \<in> component_roots N (set es). weight (F \<inter> comp_edges (set es) r))
           \<and> min_component_tree (set es) 1 T \<and> run_prim N a = weight T
           \<and> p_pq (run_prim_frame N a) = []
           \<and> int (fcard (p_visited (run_prim_frame N a))) < N"
proof -
  let ?E = "set es"
  let ?vis = "p_visited (run_prim_frame N a)"
  have v: "\<forall>(u, v, w) \<in> ?E. 1 \<le> u \<and> u \<le> N \<and> 1 \<le> v \<and> v \<le> N"
    using valid by (simp add: valid_edges_def)
  from disc obtain x y where xy: "1 \<le> x" "x \<le> N" "1 \<le> y" "y \<le> N" "\<not> connected ?E x y"
    unfolding graph_connected_def by blast
  then have N: "1 \<le> N" by simp
  from run_kruskal_correct [OF valid] obtain fr F where
    k: "run_kruskal_frame N es = ok fr" and F: "min_spanning_forest ?E F"
    and kw: "k_mst_weight fr = weight F"
    by blast
  have FE: "F \<subseteq> ?E" using F by (simp add: min_spanning_forest_def spanning_forest_def)
  then have finF: "finite F" by (rule finite_subset) simp
  have parts: "\<forall>r. min_component_tree ?E r (F \<inter> comp_edges ?E r)"
    using min_spanning_forest_component [OF _ F] by simp
  have total: "weight F = (\<Sum>r \<in> component_roots N ?E. weight (F \<inter> comp_edges ?E r))"
    using v finF FE by (rule weight_by_components)
  from run_prim_correct [OF valid N adj] obtain T where
    T: "min_spanning_forest (comp_edges ?E 1) T" and pw: "run_prim N a = weight T" and
    S: "fset ?vis = {z. connected ?E 1 z}" and
    exit: "p_pq (run_prim_frame N a) = [] \<or> N \<le> int (fcard ?vis)"
    by blast
  have sub: "fset ?vis \<subseteq> {1..N}" using S comp_range [OF v N] by auto
  have "\<not> (connected ?E 1 x \<and> connected ?E 1 y)"
    using xy(5) connected_sym connected_trans by blast
  then have "fset ?vis \<noteq> {1..N}" using S xy by auto
  with sub have "fset ?vis \<subset> {1..N}" by blast
  then have "card (fset ?vis) < card {1..N}" by (intro psubset_card_mono) simp_all
  then have small: "int (fcard ?vis) < N" using N by (simp add: fcard.rep_eq)
  with exit have empty: "p_pq (run_prim_frame N a) = []" by simp
  have kr: "run_kruskal N es = ok (weight F)" using k kw by (simp add: run_kruskal_def)
  have ct: "min_component_tree ?E 1 T" using T by (simp add: min_component_tree_forest)
  from F kr parts total ct pw empty small show ?thesis
    by (intro exI [of _ F] exI [of _ T]) simp
qed

theorem C2_disconnected_graph_weights_witness:
  "(\<exists>F T. min_spanning_forest (set [(1, 2, 5), (3, 4, 7)]) F
      \<and> run_kruskal 4 [(1, 2, 5), (3, 4, 7)] = ok (weight F)
      \<and> (\<forall>r. min_component_tree (set [(1, 2, 5), (3, 4, 7)]) r
                 (F \<inter> comp_edges (set [(1, 2, 5), (3, 4, 7)]) r))
      \<and> weight F = (\<Sum>r \<in> component_roots 4 (set [(1, 2, 5), (3, 4, 7)]).
                       weight (F \<inter> comp_edges (set [(1, 2, 5), (3, 4, 7)]) r))
      \<and> min_component_tree (set [(1, 2, 5), (3, 4, 7)]) 1 T
      \<and> run_prim 4 (build_adj [(1, 2, 5), (3, 4, 7)]) = weight T
      \<and> p_pq (run_prim_frame 4 (build_adj [(1, 2, 5), (3, 4, 7)])) = []
      \<and> int (fcard (p_visited (run_prim_frame 4 (build_adj [(1, 2, 5), (3, 4, 7)])))) < 4)
   \<and> run_kruskal 4 [(1, 2, 5), (3, 4, 7)] = ok 12
   \<and> run_prim 4 (build_adj [(1, 2, 5), (3, 4, 7)]) = 5"
proof -
  let ?es = "[(1, 2, 5), (3, 4, 7)] :: edge list"
  have v: "valid_edges 4 ?es" by (simp add: valid_edges_def)
  have "\<forall>(u, v, w) \<in> set ?es. u \<in> {1, 2} \<longleftrightarrow> v \<in> {1, 2 :: int}" by simp
  from connected_stays [OF this, of 1 3] have n13: "\<not> connected (set ?es) 1 3" by auto
  have d: "\<not> graph_connected 4 (set ?es)"
  proof
    assume "graph_connected 4 (set ?es)"
    then have "connected (set ?es) 1 3" unfolding graph_connected_def by simp
    with n13 show False ..
  qed
  have k: "run_kruskal 4 ?es = ok 12" by code_simp
  have p: "run_prim 4 (build_adj ?es) = 5" by code_simp
  from C2_disconnected_graph_weights [OF v build_adj_adjacency d] k p
  show ?thesis by blast
qed

text \<open>
  C3. Take a fresh \<^verbatim>\<open>UnionFind(n)\<close> and call \<^verbatim>\<open>union\<close> on each pair of a list of pairs with
  components in \<open>[0, n]\<close>. The calls all return, and for \<open>a\<close> and \<open>b\<close> in \<open>[0, n]\<close> the test
  \<^verbatim>\<open>find(a) == find(b)\<close> (both calls return) is true exactly when \<open>a\<close> and \<open>b\<close> are
  connected by the pairs, that is, related by their reflexive, symmetric and transitive
  closure.
\<close>

theorem C3_find_equal_iff_connected:
  assumes pairs: "\<forall>(x, y) \<in> set ps. 0 \<le> x \<and> x \<le> n \<and> 0 \<le> y \<and> y \<le> n"
    and a: "0 \<le> a" "a \<le> n" and b: "0 \<le> b" "b \<le> n"
  shows "\<exists>uf1 uf2 uf3 ra rb.
           unions (UnionFind n) ps = ok uf1 \<and> find uf1 a = ok (uf2, ra) \<and> find uf2 b = ok (uf3, rb)
           \<and> (ra = rb \<longleftrightarrow> (a, b) \<in> conn (set ps))"
proof -
  have "\<forall>a b. 0 \<le> a \<and> a \<le> n \<and> 0 \<le> b \<and> b \<le> n \<longrightarrow>
           (same_set (parent (UnionFind n)) a b \<longleftrightarrow> (a, b) \<in> conn {})"
    by (simp add: UnionFind_same_set)
  from unions_correct [OF UnionFind_inv UnionFind_length pairs this] obtain uf1 where
    u: "unions (UnionFind n) ps = ok uf1" and inv1: "uf_inv uf1" and
    len1: "length (parent uf1) = nat (n + 1)" and
    ss: "\<forall>a b. 0 \<le> a \<and> a \<le> n \<and> 0 \<le> b \<and> b \<le> n \<longrightarrow>
              (same_set (parent uf1) a b \<longleftrightarrow> (a, b) \<in> conn (set ps))"
    by auto
  have ar: "0 \<le> a" "a < int (length (parent uf1))" using a len1 by auto
  from find_ok [OF inv1 ar] obtain uf2 ra where
    fa: "find uf1 a = ok (uf2, ra)" and inv2: "uf_inv uf2" and
    len2: "length (parent uf2) = length (parent uf1)" and
    ra: "root_of (parent uf1) a ra" and
    tr2: "\<forall>j t. root_of (parent uf2) j t \<longleftrightarrow> root_of (parent uf1) j t"
    by blast
  have br: "0 \<le> b" "b < int (length (parent uf2))" using b len1 len2 by auto
  from find_ok [OF inv2 br] obtain uf3 rb where
    fb: "find uf2 b = ok (uf3, rb)" and rb2: "root_of (parent uf2) b rb"
    by blast
  from rb2 tr2 have rb: "root_of (parent uf1) b rb" by simp
  have "ra = rb \<longleftrightarrow> same_set (parent uf1) a b"
    using same_set_root [OF ra rb] by simp
  also have "\<dots> \<longleftrightarrow> (a, b) \<in> conn (set ps)" using ss a b by simp
  finally show ?thesis using u fa fb by blast
qed

theorem C3_find_equal_iff_connected_witness:
  "\<exists>uf1 uf2 uf3 ra rb.
      unions (UnionFind 3) [(1, 2), (2, 3)] = ok uf1 \<and> find uf1 1 = ok (uf2, ra)
      \<and> find uf2 3 = ok (uf3, rb) \<and> (ra = rb \<longleftrightarrow> (1::int, 3::int) \<in> conn (set [(1::int, 2::int), (2, 3)]))"
  using C3_find_equal_iff_connected [of "[(1, 2), (2, 3)]" 3 1 3] by simp



text \<open>
  C5. In every state of a \<^verbatim>\<open>UnionFind(n)\<close> object reachable by \<^verbatim>\<open>find\<close> and \<^verbatim>\<open>union\<close> calls
  with arguments in \<open>[0, n]\<close>, \<^verbatim>\<open>find(x)\<close> returns for every \<open>x\<close> in \<open>[0, n]\<close>; the value \<open>r\<close> it
  returns is in \<open>[0, n]\<close> and is its own parent afterwards, and afterwards the parent of every
  node the search visited is \<open>r\<close>.
\<close>

theorem C5_find_terminates_compresses:
  assumes "reachable n uf" and "0 \<le> x" and "x \<le> n"
  shows "\<exists>uf' r. find uf x = ok (uf', r) \<and> 0 \<le> r \<and> r \<le> n
           \<and> list_get (parent uf') r = Inr r
           \<and> (\<forall>k. visits (parent uf) x k \<longrightarrow> list_get (parent uf') k = Inr r)"
proof -
  from reachable_inv [OF assms(1)] have inv: "uf_inv uf" and len: "length (parent uf) = nat (n + 1)"
    by auto
  have xr: "0 \<le> x" "x < int (length (parent uf))" using assms len by auto
  from find_ok [OF inv xr] obtain uf' r where
    f: "find uf x = ok (uf', r)" and len': "length (parent uf') = length (parent uf)" and
    r: "root_of (parent uf) x r" and
    vis: "\<forall>k. visits (parent uf) x k \<longrightarrow> parent uf' ! nat k = r"
    by blast
  have rng: "\<And>k. visits (parent uf) x k \<Longrightarrow> 0 \<le> k \<and> k < int (length (parent uf'))"
    using visits_root_of [OF _ r] len' by (auto dest: root_of_range)
  have vr: "visits (parent uf) x r" using r by (rule visits_root)
  have "\<forall>k. visits (parent uf) x k \<longrightarrow> list_get (parent uf') k = Inr r"
    using rng vis by (simp add: list_get_in)
  moreover from this vr have "list_get (parent uf') r = Inr r" by blast
  moreover have "0 \<le> r \<and> r \<le> n" using rng [OF vr] len len' by (auto split: if_splits)
  ultimately show ?thesis using f by blast
qed

theorem C5_find_terminates_compresses_witness:
  "reachable 4 \<lparr>parent = [0, 1, 1, 1, 3], rank = [0, 2, 0, 1, 0]\<rparr> \<and>
   (\<exists>uf' r. find \<lparr>parent = [0, 1, 1, 1, 3], rank = [0, 2, 0, 1, 0]\<rparr> 4 = ok (uf', r)
       \<and> 0 \<le> r \<and> r \<le> 4 \<and> list_get (parent uf') r = Inr r
       \<and> (\<forall>k. visits [0, 1, 1, 1, 3] 4 k \<longrightarrow> list_get (parent uf') k = Inr r))"
proof -
  have u1: "union (UnionFind 4) 1 2 = ok (\<lparr>parent = [0, 1, 1, 3, 4], rank = [0, 1, 0, 0, 0]\<rparr>, True)"
    by code_simp
  have u2: "union \<lparr>parent = [0, 1, 1, 3, 4], rank = [0, 1, 0, 0, 0]\<rparr> 3 4 =
      ok (\<lparr>parent = [0, 1, 1, 3, 3], rank = [0, 1, 0, 1, 0]\<rparr>, True)"
    by code_simp
  have u3: "union \<lparr>parent = [0, 1, 1, 3, 3], rank = [0, 1, 0, 1, 0]\<rparr> 1 3 =
      ok (\<lparr>parent = [0, 1, 1, 1, 3], rank = [0, 2, 0, 1, 0]\<rparr>, True)"
    by code_simp
  have r1: "reachable 4 \<lparr>parent = [0, 1, 1, 3, 4], rank = [0, 1, 0, 0, 0]\<rparr>"
    by (rule reachable.by_union [OF reachable.init _ _ _ _ u1]) simp_all
  have r2: "reachable 4 \<lparr>parent = [0, 1, 1, 3, 3], rank = [0, 1, 0, 1, 0]\<rparr>"
    by (rule reachable.by_union [OF r1 _ _ _ _ u2]) simp_all
  have r3: "reachable 4 \<lparr>parent = [0, 1, 1, 1, 3], rank = [0, 2, 0, 1, 0]\<rparr>"
    by (rule reachable.by_union [OF r2 _ _ _ _ u3]) simp_all
  from C5_find_terminates_compresses [OF r3, of 4] r3 show ?thesis by simp
qed

text \<open>
  C6. In a reachable state, let \<^verbatim>\<open>find(x)\<close> return \<open>rx\<close> and then \<^verbatim>\<open>find(y)\<close> return \<open>ry\<close>, with
  \<open>rx \<noteq> ry\<close>. Then \<^verbatim>\<open>union(x, y)\<close> returns \<^verbatim>\<open>True\<close>, and its only changes after the two
  searches are these: if the ranks differ, the root of smaller rank gets the root of larger
  rank as parent and no rank changes; if the ranks are equal, \<open>ry\<close> gets \<open>rx\<close> as parent and
  the rank of \<open>rx\<close> grows by one.
\<close>

theorem C6_union_by_rank:
  assumes "reachable n uf" and "0 \<le> x" "x \<le> n" and "0 \<le> y" "y \<le> n"
    and fx: "find uf x = ok (uf1, rx)" and fy: "find uf1 y = ok (uf2, ry)" and ne: "rx \<noteq> ry"
  shows "\<exists>uf'. union uf x y = ok (uf', True) \<and>
           (if rank uf ! nat rx < rank uf ! nat ry
              then parent uf' = (parent uf2)[nat rx := ry] \<and> rank uf' = rank uf
            else if rank uf ! nat ry < rank uf ! nat rx
              then parent uf' = (parent uf2)[nat ry := rx] \<and> rank uf' = rank uf
            else parent uf' = (parent uf2)[nat ry := rx]
               \<and> rank uf' = (rank uf)[nat rx := rank uf ! nat rx + 1]
               \<and> rank uf' ! nat rx = rank uf ! nat rx + 1)"
proof -
  from reachable_inv [OF assms(1)] have inv: "uf_inv uf" and len: "length (parent uf) = nat (n + 1)"
    by auto
  have xr: "0 \<le> x" "x < int (length (parent uf))" using assms len by auto
  from find_ok [OF inv xr] fx have inv1: "uf_inv uf1" and
    len1: "length (parent uf1) = length (parent uf)" and rk1: "rank uf1 = rank uf" and
    rx: "root_of (parent uf) x rx"
    by auto
  have yr: "0 \<le> y" "y < int (length (parent uf1))" using assms len len1 by auto
  from find_ok [OF inv1 yr] fy have inv2: "uf_inv uf2" and
    len2: "length (parent uf2) = length (parent uf1)" and rk2: "rank uf2 = rank uf1" and
    ry: "root_of (parent uf1) y ry"
    by auto
  have lr: "length (rank uf) = length (parent uf)" using inv by (simp add: uf_inv_def)
  have rxr: "0 \<le> rx" "rx < int (length (parent uf))" using root_of_is_root [OF rx] by auto
  have ryr: "0 \<le> ry" "ry < int (length (parent uf))" using root_of_is_root [OF ry] len1 by auto
  have un: "union uf x y = ok
      (if rank uf ! nat rx < rank uf ! nat ry then uf2\<lparr>parent := (parent uf2)[nat rx := ry]\<rparr>
       else if rank uf ! nat ry < rank uf ! nat rx then uf2\<lparr>parent := (parent uf2)[nat ry := rx]\<rparr>
       else uf2\<lparr>parent := (parent uf2)[nat ry := rx],
                rank := (rank uf)[nat rx := rank uf ! nat rx + 1]\<rparr>, True)"
    using ne rxr ryr lr len1 len2 rk1 rk2
    by (auto simp add: union_def fx fy list_get_in list_set_in)
  have "rank (uf2\<lparr>parent := (parent uf2)[nat ry := rx],
                rank := (rank uf)[nat rx := rank uf ! nat rx + 1]\<rparr>) ! nat rx = rank uf ! nat rx + 1"
    using rxr lr by simp
  then show ?thesis
    unfolding un using rk1 rk2 by (auto simp del: nth_list_update_eq)
qed

theorem C6_union_by_rank_witness:
  "\<exists>uf'. union (UnionFind 2) 1 2 = ok (uf', True) \<and>
     (if rank (UnionFind 2) ! nat 1 < rank (UnionFind 2) ! nat 2
        then parent uf' = (parent (UnionFind 2))[nat 1 := 2] \<and> rank uf' = rank (UnionFind 2)
      else if rank (UnionFind 2) ! nat 2 < rank (UnionFind 2) ! nat 1
        then parent uf' = (parent (UnionFind 2))[nat 2 := 1] \<and> rank uf' = rank (UnionFind 2)
      else parent uf' = (parent (UnionFind 2))[nat 2 := 1]
         \<and> rank uf' = (rank (UnionFind 2))[nat 1 := rank (UnionFind 2) ! nat 1 + 1]
         \<and> rank uf' ! nat 1 = rank (UnionFind 2) ! nat 1 + 1)"
proof -
  have f1: "find (UnionFind 2) 1 = ok (UnionFind 2, 1)" by code_simp
  have f2: "find (UnionFind 2) 2 = ok (UnionFind 2, 2)" by code_simp
  show ?thesis
    by (rule C6_union_by_rank [OF reachable.init _ _ _ _ f1 f2]) simp_all
qed

text \<open>
  C7. On an empty graph both functions return total weight 0, and neither raises:
  \<^verbatim>\<open>run_kruskal\<close> on an empty edge list, whatever \<^verbatim>\<open>num_nodes\<close> is (with \<^verbatim>\<open>num_nodes = 0\<close> an
  edge list with endpoints in \<open>[1, num_nodes]\<close> is empty); \<^verbatim>\<open>run_prim\<close> with \<^verbatim>\<open>num_nodes = 0\<close>,
  whatever the adjacency structure is, although its queue starts with the entry \<open>(0, 1)\<close>;
  and \<^verbatim>\<open>run_prim\<close> on an empty adjacency structure, whatever \<^verbatim>\<open>num_nodes\<close> is.
\<close>

theorem C7_empty_graph:
  "run_kruskal N [] = ok 0 \<and> run_prim 0 a = 0 \<and> run_prim N Map.empty = 0"
proof (intro conjI)
  show "run_kruskal N [] = ok 0"
    by (simp add: run_kruskal_def run_kruskal_frame_def)
  show "run_prim 0 a = 0"
    by (simp add: run_prim_def run_prim_frame_def prim_loop.simps)
  show "run_prim N Map.empty = 0"
  proof (cases "1 \<le> N")
    case False
    then show ?thesis by (simp add: run_prim_def run_prim_frame_def prim_loop.simps)
  next
    case True
    have "prim_loop N \<lparr>p_adj = Map.empty, p_pq = [(0, 1)], p_visited = {||}, p_mst_weight = 0\<rparr> =
          prim_loop N \<lparr>p_adj = [1 \<mapsto> []], p_pq = [], p_visited = {|1|}, p_mst_weight = 0\<rparr>"
      using True
      by (subst prim_loop.simps) (simp add: heappop_def dd_get_def push_neighbors_def fcard_fempty)
    also have "\<dots> = \<lparr>p_adj = [1 \<mapsto> []], p_pq = [], p_visited = {|1|}, p_mst_weight = 0\<rparr>"
      by (subst prim_loop.simps) simp
    finally show ?thesis by (simp add: run_prim_def run_prim_frame_def)
  qed
qed

text \<open>
  C8, as the code has it. When \<^verbatim>\<open>run_kruskal\<close> returns, the edge list it was given is what it
  was. \<^verbatim>\<open>run_prim\<close> leaves every list of the adjacency structure as it was and removes no
  key, and every subscript \<^verbatim>\<open>adj[u]\<close> evaluates to the same list after the run as before; but
  it can add keys: a key it adds holds the empty list (the \<^verbatim>\<open>defaultdict\<close> stores it when
  \<^verbatim>\<open>adj[u]\<close> is evaluated for a vertex with no entry).
\<close>

theorem C8_inputs_after_a_run:
  assumes "run_kruskal_frame N es = ok fr"
  shows "k_edges fr = es
    \<and> (\<forall>u. neighbors (p_adj (run_prim_frame N a)) u = neighbors a u)
    \<and> (\<forall>u l. a u = Some l \<longrightarrow> p_adj (run_prim_frame N a) u = Some l)
    \<and> (\<forall>u. u \<in> dom (p_adj (run_prim_frame N a)) - dom a \<longrightarrow> p_adj (run_prim_frame N a) u = Some [])"
proof -
  have 1: "k_edges fr = es"
    using assms kruskal_loop_edges unfolding run_kruskal_frame_def Let_def by fastforce
  let ?a' = "p_adj (run_prim_frame N a)"
  have 2: "\<forall>u. neighbors ?a' u = neighbors a u" and 3: "\<forall>u l. a u = Some l \<longrightarrow> ?a' u = Some l"
    using prim_loop_adj [of N "\<lparr>p_adj = a, p_pq = [(0, 1)], p_visited = {||}, p_mst_weight = 0\<rparr>"]
    by (simp_all add: run_prim_frame_def)
  have 4: "\<forall>u. u \<in> dom ?a' - dom a \<longrightarrow> ?a' u = Some []"
  proof (intro allI impI)
    fix u assume "u \<in> dom ?a' - dom a"
    then obtain l where l: "?a' u = Some l" and n: "a u = None" by auto
    from 2 have "neighbors ?a' u = neighbors a u" by simp
    with l n show "?a' u = Some []" by (simp add: neighbors_def)
  qed
  from 1 2 3 4 show ?thesis by blast
qed

theorem C8_inputs_after_a_run_witness:
  "\<exists>fr. run_kruskal_frame 3 [(1, 2, 1), (2, 3, 2), (1, 3, 3)] = ok fr
     \<and> k_edges fr = [(1, 2, 1), (2, 3, 2), (1, 3, 3)]
     \<and> (\<forall>u. neighbors (p_adj (run_prim_frame 3 (build_adj [(1, 2, 1), (2, 3, 2), (1, 3, 3)]))) u =
             neighbors (build_adj [(1, 2, 1), (2, 3, 2), (1, 3, 3)]) u)"
proof -
  have "valid_edges 3 [(1, 2, 1), (2, 3, 2), (1, 3, 3)]" by (simp add: valid_edges_def)
  from run_kruskal_correct [OF this] obtain fr where
    fr: "run_kruskal_frame 3 [(1, 2, 1), (2, 3, 2), (1, 3, 3)] = ok fr" by blast
  from C8_inputs_after_a_run [OF fr, of "build_adj [(1, 2, 1), (2, 3, 2), (1, 3, 3)]"] fr
  show ?thesis by blast
qed

text \<open>
  C8 as stated fails for \<^verbatim>\<open>run_prim\<close>: with \<^verbatim>\<open>num_nodes = 1\<close> and an empty adjacency structure,
  the structure has the key 1 after the run.
\<close>

theorem C8_adjacency_keys_counterexample:
  "p_adj (run_prim_frame 1 Map.empty) \<noteq> Map.empty \<and> dom (p_adj (run_prim_frame 1 Map.empty)) = {1}"
  by (simp add: run_prim_frame_single)

text \<open>
  C9. On the triangle with \<open>N = 3\<close> and the edges \<open>(1,2,1)\<close>, \<open>(2,3,2)\<close>, \<open>(1,3,3)\<close>, with the
  adjacency structure the loader builds from them (both directions of each edge),
  \<^verbatim>\<open>run_kruskal\<close> returns total weight 3 and \<^verbatim>\<open>run_prim\<close>, starting at vertex 1, returns
  total weight 3.
\<close>

theorem C9_triangle:
  "run_kruskal 3 [(1, 2, 1), (2, 3, 2), (1, 3, 3)] = ok 3 \<and>
   run_prim 3 (build_adj [(1, 2, 1), (2, 3, 2), (1, 3, 3)]) = 3"
  by code_simp

text \<open>
  C10. If every edge has both endpoints in \<open>[1, num_nodes]\<close>, \<^verbatim>\<open>run_kruskal\<close> returns, no
  subscript of \<^verbatim>\<open>parent\<close> or \<^verbatim>\<open>rank\<close> raising \<^verbatim>\<open>IndexError\<close>, and every subscript that
  \<^verbatim>\<open>find\<close> and \<^verbatim>\<open>union\<close> use on \<^verbatim>\<open>parent\<close> and \<^verbatim>\<open>rank\<close> during the run is in
  \<open>[0, num_nodes]\<close>: the run that records its subscripts returns the same frame, and every
  subscript it recorded is in that range. Moreover, after any number of iterations of the
  loop both lists have \<open>num_nodes + 1\<close> items and every item of \<^verbatim>\<open>parent\<close> is in
  \<open>[0, num_nodes]\<close>.
\<close>

theorem C10_kruskal_subscripts_in_range:
  assumes "valid_edges N es"
  shows "(\<exists>fr t. run_kruskal_frame N es = ok fr \<and> run_kruskal_sub N es = ok (fr, t)
            \<and> (\<forall>i \<in> set t. 0 \<le> i \<and> i \<le> N)) \<and>
         (\<forall>pre post. sort_key (\<lambda>(u, v, w). w) es = pre @ post \<longrightarrow>
            (\<exists>fr'. kruskal_loop pre \<lparr>k_edges = es, k_uf = UnionFind N, k_mst_weight = 0,
                                      k_edges_count = 0\<rparr> = ok fr'
               \<and> length (parent (k_uf fr')) = nat (N + 1)
               \<and> length (rank (k_uf fr')) = nat (N + 1)
               \<and> (\<forall>p \<in> set (parent (k_uf fr')). 0 \<le> p \<and> p \<le> N)))"
proof (intro conjI allI impI)
  from run_kruskal_sub_ok [OF assms]
  show "\<exists>fr t. run_kruskal_frame N es = ok fr \<and> run_kruskal_sub N es = ok (fr, t)
            \<and> (\<forall>i \<in> set t. 0 \<le> i \<and> i \<le> N)" .
next
  fix pre post assume sp: "sort_key (\<lambda>(u, v, w). w) es = pre @ post"
  have so: "sorted (map (\<lambda>(u, v, w). w) pre)" using sp by (rule sorted_prefix)
  have "valid_edges N (pre @ post)" using assms sp [symmetric] by (simp add: valid_edges_sort)
  then have va: "valid_edges N pre" by (simp add: valid_edges_def)
  from kruskal_loop_from_init [OF so va, of es] obtain fr' where
    lp: "kruskal_loop pre \<lparr>k_edges = es, k_uf = UnionFind N, k_mst_weight = 0, k_edges_count = 0\<rparr> = ok fr'"
    and inv: "kruskal_inv N (set pre) pre fr'"
    by blast
  from inv have ui: "uf_inv (k_uf fr')" and len: "length (parent (k_uf fr')) = nat (N + 1)"
    unfolding kruskal_inv_def by auto
  have lr: "length (rank (k_uf fr')) = nat (N + 1)" using ui len by (simp add: uf_inv_def)
  have "\<forall>p \<in> set (parent (k_uf fr')). 0 \<le> p \<and> p \<le> N"
    using uf_inv_entries [OF ui] len by (fastforce split: if_splits)
  with lp len lr
  show "\<exists>fr'. kruskal_loop pre \<lparr>k_edges = es, k_uf = UnionFind N, k_mst_weight = 0,
                                      k_edges_count = 0\<rparr> = ok fr'
               \<and> length (parent (k_uf fr')) = nat (N + 1)
               \<and> length (rank (k_uf fr')) = nat (N + 1)
               \<and> (\<forall>p \<in> set (parent (k_uf fr')). 0 \<le> p \<and> p \<le> N)"
    by blast
qed

theorem C10_kruskal_subscripts_in_range_witness:
  "(\<exists>fr t. run_kruskal_frame 3 [(1, 2, 1), (2, 3, 2), (1, 3, 3)] = ok fr
       \<and> run_kruskal_sub 3 [(1, 2, 1), (2, 3, 2), (1, 3, 3)] = ok (fr, t)
       \<and> (\<forall>i \<in> set t. 0 \<le> i \<and> i \<le> 3)) \<and>
   (\<exists>fr'. kruskal_loop [(1, 2, 1), (2, 3, 2), (1, 3, 3)]
             \<lparr>k_edges = [(1, 2, 1), (2, 3, 2), (1, 3, 3)], k_uf = UnionFind 3, k_mst_weight = 0,
              k_edges_count = 0\<rparr> = ok fr'
       \<and> length (parent (k_uf fr')) = nat (3 + 1)
       \<and> length (rank (k_uf fr')) = nat (3 + 1)
       \<and> (\<forall>p \<in> set (parent (k_uf fr')). 0 \<le> p \<and> p \<le> 3)) \<and>
   run_kruskal_sub 3 [(1, 2, 1), (2, 3, 2), (1, 3, 3)] =
     ok (\<lparr>k_edges = [(1, 2, 1), (2, 3, 2), (1, 3, 3)],
           k_uf = \<lparr>parent = [0, 1, 1, 1], rank = [0, 1, 0, 0]\<rparr>,
           k_mst_weight = 3, k_edges_count = 2\<rparr>,
         [1, 1, 2, 2, 1, 2, 2, 1, 2, 1, 1, 2, 2, 1, 1, 2, 2, 3, 3, 1, 3, 3,
          1, 3, 1, 1, 3, 3, 1, 1, 3, 3])"
proof -
  have 3: "run_kruskal_sub 3 [(1, 2, 1), (2, 3, 2), (1, 3, 3)] =
     ok (\<lparr>k_edges = [(1, 2, 1), (2, 3, 2), (1, 3, 3)],
           k_uf = \<lparr>parent = [0, 1, 1, 1], rank = [0, 1, 0, 0]\<rparr>,
           k_mst_weight = 3, k_edges_count = 2\<rparr>,
         [1, 1, 2, 2, 1, 2, 2, 1, 2, 1, 1, 2, 2, 1, 1, 2, 2, 3, 3, 1, 3, 3,
          1, 3, 1, 1, 3, 3, 1, 1, 3, 3])"
    by code_simp
  have v: "valid_edges 3 [(1, 2, 1), (2, 3, 2), (1, 3, 3)]" by (simp add: valid_edges_def)
  have s: "sort_key (\<lambda>(u, v, w). w) [(1, 2, 1), (2, 3, 2), (1, 3, 3 :: int)] =
           [(1 :: int, 2 :: int, 1), (2, 3, 2), (1, 3, 3)] @ []" by simp
  note c = C10_kruskal_subscripts_in_range [OF v]
  from c have 1: "\<exists>fr t. run_kruskal_frame 3 [(1, 2, 1), (2, 3, 2), (1, 3, 3)] = ok fr
       \<and> run_kruskal_sub 3 [(1, 2, 1), (2, 3, 2), (1, 3, 3)] = ok (fr, t)
       \<and> (\<forall>i \<in> set t. 0 \<le> i \<and> i \<le> 3)"
    by (rule conjunct1)
  from c have "\<forall>pre post. sort_key (\<lambda>(u, v, w). w) [(1, 2, 1), (2, 3, 2), (1, 3, 3)] = pre @ post \<longrightarrow>
            (\<exists>fr'. kruskal_loop pre \<lparr>k_edges = [(1, 2, 1), (2, 3, 2), (1, 3, 3)], k_uf = UnionFind 3,
                                      k_mst_weight = 0, k_edges_count = 0\<rparr> = ok fr'
               \<and> length (parent (k_uf fr')) = nat (3 + 1)
               \<and> length (rank (k_uf fr')) = nat (3 + 1)
               \<and> (\<forall>p \<in> set (parent (k_uf fr')). 0 \<le> p \<and> p \<le> 3))"
    by (rule conjunct2)
  with s have 2: "\<exists>fr'. kruskal_loop [(1, 2, 1), (2, 3, 2), (1, 3, 3)]
             \<lparr>k_edges = [(1, 2, 1), (2, 3, 2), (1, 3, 3)], k_uf = UnionFind 3, k_mst_weight = 0,
              k_edges_count = 0\<rparr> = ok fr'
       \<and> length (parent (k_uf fr')) = nat (3 + 1)
       \<and> length (rank (k_uf fr')) = nat (3 + 1)
       \<and> (\<forall>p \<in> set (parent (k_uf fr')). 0 \<le> p \<and> p \<le> 3)"
    by blast
  from 1 2 3 show ?thesis by (intro conjI)
qed

end
